theory Spec2Isabelle
  imports Main "HOL-Library.Word" "HOL-Library.Signed_Division"
begin

section \<open>The timestamp record and C integer arithmetic\<close>

text \<open>
  A C \<^verbatim>\<open>int\<close> is a 32-bit word. \<open>+\<close> and \<open>-\<close> on words wrap around modulo \<open>2 ^ 32\<close>, which
  is what the compiled code does on two's complement machines (the C standard itself
  leaves signed overflow undefined). \<open>sint\<close> reads a word as a signed number, \<open><s\<close> and
  \<open>\<le>s\<close> are the signed comparisons. C's \<^verbatim>\<open>/\<close> and \<^verbatim>\<open>%\<close> truncate towards zero: they are
  \<open>sdiv\<close> and \<open>smod\<close> on the signed values, not HOL's flooring \<open>div\<close> and \<open>mod\<close>.
\<close>

type_synonym cint = "32 word"

definition c_div :: "cint \<Rightarrow> cint \<Rightarrow> cint" where
  "c_div a b = word_of_int (sint a sdiv sint b)"

definition c_mod :: "cint \<Rightarrow> cint \<Rightarrow> cint" where
  "c_mod a b = word_of_int (sint a smod sint b)"

text \<open>
  The struct \<^verbatim>\<open>arcdate_t\<close> of \<^verbatim>\<open>http_datetime_parser.h\<close>: eight \<^verbatim>\<open>int\<close> fields. The
  functions that the C code writes through a pointer take the struct and return the new
  one. A result of type \<open>'a option\<close> is \<open>None\<close> where the C code has no defined behaviour:
  an index outside one of the three constant tables, \<^verbatim>\<open>free\<close> of an address that is not
  live.
\<close>

record arcdate =
  year :: cint
  month :: cint
  day :: cint
  hour :: cint
  minute :: cint
  second :: cint
  weekday :: cint
  gmt_offset :: cint

definition month_days :: "cint list" where
  "month_days = [31, 28, 31, 30, 31, 30, 31, 31, 30, 31, 30, 31]"

definition weekday_names :: "string list" where
  "weekday_names = [''Sun'', ''Mon'', ''Tue'', ''Wed'', ''Thu'', ''Fri'', ''Sat'']"

definition month_names :: "string list" where
  "month_names = [''Jan'', ''Feb'', ''Mar'', ''Apr'', ''May'', ''Jun'',
                  ''Jul'', ''Aug'', ''Sep'', ''Oct'', ''Nov'', ''Dec'']"

section \<open>The calendar engine\<close>

definition is_leap_year :: "cint \<Rightarrow> bool" where
  "is_leap_year y =
     (if c_mod y 4 \<noteq> 0 then False
      else if c_mod y 100 \<noteq> 0 then True
      else if c_mod y 400 \<noteq> 0 then False
      else True)"

text \<open>\<^verbatim>\<open>month_days[month - 1]\<close> is read only when \<open>month \<noteq> 2\<close>; outside 1..12 the index is
  out of the table.\<close>

definition days_in_month :: "cint \<Rightarrow> cint \<Rightarrow> cint option" where
  "days_in_month m y =
     (if m = 2 then Some (if is_leap_year y then 29 else 28)
      else if 1 \<le>s m \<and> m \<le>s 12 then Some (month_days ! nat (sint (m - 1)))
      else None)"

text \<open>What the termination of the two loops of \<^verbatim>\<open>add_days\<close> needs: inside the range of
  \<^verbatim>\<open>int\<close> the word operations are the integer ones, and a month has 28 to 31 days.\<close>

lemma sint_bounds: "- 2147483648 \<le> sint (a::cint) \<and> sint a \<le> 2147483647"
  using sint_ge [of a] sint_lt [of a] by simp

lemma sint_of_int_in:
  "- 2147483648 \<le> k \<Longrightarrow> k \<le> 2147483647 \<Longrightarrow> sint (word_of_int k :: cint) = k"
  by (simp add: sint_sbintrunc' signed_take_bit_int_eq_self)

lemma sint_add_in:
  "- 2147483648 \<le> sint a + sint b \<Longrightarrow> sint a + sint b \<le> 2147483647 \<Longrightarrow>
   sint (a + b :: cint) = sint a + sint b"
  by (simp add: sint_word_ariths signed_take_bit_int_eq_self)

lemma sint_sub_in:
  "- 2147483648 \<le> sint a - sint b \<Longrightarrow> sint a - sint b \<le> 2147483647 \<Longrightarrow>
   sint (a - b :: cint) = sint a - sint b"
  by (simp add: sint_word_ariths signed_take_bit_int_eq_self)

lemma month_in_range:
  "1 \<le> (m::int) \<Longrightarrow> m \<le> 12 \<Longrightarrow> m \<in> {1, 2, 3, 4, 5, 6, 7, 8, 9, 10, 11, 12}"
  by (simp; arith)

lemma days_in_month_bounds:
  "days_in_month m y = Some dim \<Longrightarrow> 28 \<le> sint dim \<and> sint dim \<le> 31"
proof -
  assume a: "days_in_month m y = Some dim"
  show ?thesis
  proof (cases "m = 2")
    case True
    with a show ?thesis by (auto simp: days_in_month_def split: if_splits)
  next
    case False
    with a have r: "1 \<le> sint m" "sint m \<le> 12" and v: "dim = month_days ! nat (sint (m - 1))"
      by (auto simp: days_in_month_def word_sle_eq split: if_splits)
    from r have s: "sint (m - 1) = sint m - 1" by (simp add: sint_sub_in)
    from month_in_range [OF r] v show ?thesis
      unfolding s by (auto simp: month_days_def)
  qed
qed

text \<open>The first loop of \<^verbatim>\<open>add_days\<close>: while the day is beyond the month, move to the
  next month. The weekday advances once per iteration.\<close>

function add_days_loop1 :: "arcdate \<Rightarrow> arcdate option" where
  "add_days_loop1 d =
     (case days_in_month (month d) (year d) of
        None \<Rightarrow> None
      | Some dim \<Rightarrow>
          if dim <s day d then
            add_days_loop1
              (let d1 = d\<lparr>day := day d - dim\<rparr>;
                   d2 = d1\<lparr>month := month d1 + 1\<rparr>;
                   d3 = (if 12 <s month d2 then d2\<lparr>month := 1, year := year d2 + 1\<rparr> else d2)
               in d3\<lparr>weekday := c_mod (weekday d3 + 1) 7\<rparr>)
          else Some d)"
  by pat_completeness auto
termination
proof (relation "measure (\<lambda>d. nat (sint (day d)))")
  show "wf (measure (\<lambda>d. nat (sint (day d))))" by simp
next
  fix d :: arcdate and dim :: cint
  assume a: "days_in_month (month d) (year d) = Some dim" and b: "dim <s day d"
  from b have lt: "sint dim < sint (day d)" by (simp add: word_sless_alt)
  with days_in_month_bounds [OF a] sint_bounds [of "day d"]
  have "sint (day d - dim) = sint (day d) - sint dim" by (intro sint_sub_in) linarith+
  with days_in_month_bounds [OF a] lt
  show "(let d1 = d\<lparr>day := day d - dim\<rparr>;
             d2 = d1\<lparr>month := month d1 + 1\<rparr>;
             d3 = (if 12 <s month d2 then d2\<lparr>month := 1, year := year d2 + 1\<rparr> else d2)
         in d3\<lparr>weekday := c_mod (weekday d3 + 1) 7\<rparr>, d)
          \<in> measure (\<lambda>d. nat (sint (day d)))"
    by (simp add: Let_def)
qed

text \<open>The second loop of \<^verbatim>\<open>add_days\<close>: while the day is below 1, move to the previous
  month and add its length. The weekday retreats once per iteration.\<close>

function add_days_loop2 :: "arcdate \<Rightarrow> arcdate option" where
  "add_days_loop2 d =
     (if day d <s 1 then
        (let d1 = d\<lparr>month := month d - 1\<rparr>;
             d2 = (if month d1 <s 1 then d1\<lparr>month := 12, year := year d1 - 1\<rparr> else d1)
         in case days_in_month (month d2) (year d2) of
              None \<Rightarrow> None
            | Some dim \<Rightarrow>
                add_days_loop2 (d2\<lparr>day := day d2 + dim, weekday := c_mod (weekday d2 + 6) 7\<rparr>))
      else Some d)"
  by pat_completeness auto
termination
proof (relation "measure (\<lambda>d. nat (1 - sint (day d)))")
  show "wf (measure (\<lambda>d. nat (1 - sint (day d))))" by simp
next
  fix d d1 d2 :: arcdate and dim :: cint
  assume lt: "day d <s 1"
    and d1: "d1 = d\<lparr>month := month d - 1\<rparr>"
    and d2: "d2 = (if month d1 <s 1 then d1\<lparr>month := 12, year := year d1 - 1\<rparr> else d1)"
    and a: "days_in_month (month d2) (year d2) = Some dim"
  have e: "day d2 = day d" using d1 d2 by simp
  from lt have l: "sint (day d) < 1" by (simp add: word_sless_alt)
  with days_in_month_bounds [OF a] sint_bounds [of "day d"]
  have "sint (day d + dim) = sint (day d) + sint dim" by (intro sint_add_in) linarith+
  with days_in_month_bounds [OF a] l e
  show "(d2\<lparr>day := day d2 + dim, weekday := c_mod (weekday d2 + 6) 7\<rparr>, d)
          \<in> measure (\<lambda>d. nat (1 - sint (day d)))"
    by simp
qed

definition add_days :: "arcdate \<Rightarrow> cint \<Rightarrow> arcdate option" where
  "add_days d days =
     (case add_days_loop1 (d\<lparr>day := day d + days\<rparr>) of
        None \<Rightarrow> None
      | Some d' \<Rightarrow> add_days_loop2 d')"

definition add_hours :: "arcdate \<Rightarrow> cint \<Rightarrow> arcdate option" where
  "add_hours d hours =
     (let total_hours = hour d + hours;
          days_change = c_div total_hours 24;
          days_change = (if total_hours <s 0 then days_change - 1 else days_change)
      in add_days (d\<lparr>hour := c_mod (c_mod total_hours 24 + 24) 24\<rparr>) days_change)"

definition add_minutes :: "arcdate \<Rightarrow> cint \<Rightarrow> arcdate option" where
  "add_minutes d minutes =
     (let total_minutes = minute d + minutes;
          hours_change = c_div total_minutes 60;
          hours_change = (if total_minutes <s 0 then hours_change - 1 else hours_change)
      in add_hours (d\<lparr>minute := c_mod (c_mod total_minutes 60 + 60) 60\<rparr>) hours_change)"

definition add_years :: "arcdate \<Rightarrow> cint \<Rightarrow> arcdate" where
  "add_years d years =
     (let d1 = d\<lparr>year := year d + years\<rparr>
      in if month d1 = 2 \<and> day d1 = 29 \<and> \<not> is_leap_year (year d1)
         then d1\<lparr>day := 28\<rparr> else d1)"

definition add_months :: "arcdate \<Rightarrow> cint \<Rightarrow> arcdate option" where
  "add_months d months =
     (let total_months = month d + months - 1;
          years_change = c_div total_months 12;
          years_change = (if total_months <s 0 then years_change - 1 else years_change);
          d1 = add_years (d\<lparr>month := c_mod (c_mod total_months 12 + 12) 12 + 1\<rparr>) years_change
      in case days_in_month (month d1) (year d1) of
           None \<Rightarrow> None
         | Some dim \<Rightarrow> Some (if dim <s day d1 then d1\<lparr>day := dim\<rparr> else d1))"

definition convert :: "arcdate \<Rightarrow> cint \<Rightarrow> arcdate option" where
  "convert d new_gmt_offset =
     (let diff = new_gmt_offset - gmt_offset d
      in case add_hours d diff of
           None \<Rightarrow> None
         | Some d' \<Rightarrow> Some (d'\<lparr>gmt_offset := new_gmt_offset\<rparr>))"

section \<open>The parser\<close>

text \<open>
  \<^verbatim>\<open>generate_date\<close> reads its text with
  \<^verbatim>\<open>sscanf(httpDate, "%3s, %d %3s %d %d:%d:%d", ...)\<close>. The conversions are modelled on the
  bytes of the string before its terminator: \<^verbatim>\<open>%3s\<close> skips white space and takes up to
  three bytes that are not white space; \<^verbatim>\<open>%d\<close> skips white space and takes an optional
  sign and a run of decimal digits; a space in the format skips any white space; any other
  character of the format must be the next byte.

  \<^verbatim>\<open>%d\<close> converts the digits as \<^verbatim>\<open>strtol\<close> does, into a \<^verbatim>\<open>long\<close> of 64 bits that saturates,
  and stores the low 32 bits in the \<^verbatim>\<open>int\<close> (the C library of the platform the repository
  was run on; the C standard leaves a number that does not fit undefined).
\<close>

definition isspace :: "char \<Rightarrow> bool" where
  "isspace c = (c = CHR '' '' \<or> (9 \<le> (of_char c :: nat) \<and> (of_char c :: nat) \<le> 13))"

definition isdigit :: "char \<Rightarrow> bool" where
  "isdigit c = (48 \<le> (of_char c :: nat) \<and> (of_char c :: nat) \<le> 57)"

definition skip_ws :: "string \<Rightarrow> string" where
  "skip_ws s = dropWhile isspace s"

definition scan_str :: "nat \<Rightarrow> string \<Rightarrow> (string \<times> string) option" where
  "scan_str width s =
     (let s1 = skip_ws s
      in if s1 = [] then None
         else let tok = takeWhile (\<lambda>c. \<not> isspace c) (take width s1)
              in Some (tok, drop (length tok) s1))"

definition scan_lit :: "char \<Rightarrow> string \<Rightarrow> string option" where
  "scan_lit c s = (case s of [] \<Rightarrow> None | x # xs \<Rightarrow> if x = c then Some xs else None)"

definition digit_val :: "char \<Rightarrow> int" where
  "digit_val c = int (of_char c) - 48"

definition digits_val :: "string \<Rightarrow> int" where
  "digits_val ds = foldl (\<lambda>acc c. 10 * acc + digit_val c) 0 ds"

definition strtol_clamp :: "int \<Rightarrow> int" where
  "strtol_clamp v =
     (if 9223372036854775807 < v then 9223372036854775807
      else if v < - 9223372036854775808 then - 9223372036854775808
      else v)"

definition scan_int :: "string \<Rightarrow> (cint \<times> string) option" where
  "scan_int s =
     (let s1 = skip_ws s;
          (neg, s2) = (case s1 of
                         c # r \<Rightarrow> if c = CHR ''-'' then (True, r)
                                  else if c = CHR ''+'' then (False, r) else (False, s1)
                       | [] \<Rightarrow> (False, s1));
          ds = takeWhile isdigit s2
      in if ds = [] then None
         else Some (word_of_int (strtol_clamp (if neg then - digits_val ds else digits_val ds)),
                    drop (length ds) s2))"

text \<open>
  The locals that \<^verbatim>\<open>sscanf\<close> writes: the two arrays \<^verbatim>\<open>weekday[4]\<close> and \<^verbatim>\<open>month[4]\<close> (as
  the string they hold) and the five numbers. \<^verbatim>\<open>sscanf\<close> runs the directives of its format
  from left to right and stops at the first that fails; a local whose conversion was not
  reached keeps what it held. The code ignores the count that \<^verbatim>\<open>sscanf\<close> returns.
\<close>

record locals =
  l_weekday :: string
  l_day :: cint
  l_month :: string
  l_year :: cint
  l_hour :: cint
  l_minute :: cint
  l_second :: cint

datatype directive =
    Conv_s nat "string \<Rightarrow> locals \<Rightarrow> locals"
  | Conv_d "cint \<Rightarrow> locals \<Rightarrow> locals"
  | Lit char
  | White

fun sscanf :: "directive list \<Rightarrow> string \<Rightarrow> locals \<Rightarrow> locals" where
  "sscanf [] s l = l"
| "sscanf (Conv_s width store # ds) s l =
     (case scan_str width s of None \<Rightarrow> l | Some (tok, r) \<Rightarrow> sscanf ds r (store tok l))"
| "sscanf (Conv_d store # ds) s l =
     (case scan_int s of None \<Rightarrow> l | Some (v, r) \<Rightarrow> sscanf ds r (store v l))"
| "sscanf (Lit c # ds) s l =
     (case scan_lit c s of None \<Rightarrow> l | Some r \<Rightarrow> sscanf ds r l)"
| "sscanf (White # ds) s l = sscanf ds (skip_ws s) l"

definition http_date_format :: "directive list" where
  "http_date_format =
     [Conv_s 3 (\<lambda>v l. l\<lparr>l_weekday := v\<rparr>), Lit CHR '','', White,
      Conv_d (\<lambda>v l. l\<lparr>l_day := v\<rparr>), White,
      Conv_s 3 (\<lambda>v l. l\<lparr>l_month := v\<rparr>), White,
      Conv_d (\<lambda>v l. l\<lparr>l_year := v\<rparr>), White,
      Conv_d (\<lambda>v l. l\<lparr>l_hour := v\<rparr>), Lit CHR '':'',
      Conv_d (\<lambda>v l. l\<lparr>l_minute := v\<rparr>), Lit CHR '':'',
      Conv_d (\<lambda>v l. l\<lparr>l_second := v\<rparr>)]"

text \<open>The two table searches, \<^verbatim>\<open>for (i = 0; i < 12; ++i)\<close> and \<^verbatim>\<open>for (i = 0; i < 7; ++i)\<close>;
  \<^verbatim>\<open>strcmp(...) == 0\<close> is equality of the two strings.\<close>

function parse_month_loop :: "string \<Rightarrow> nat \<Rightarrow> cint" where
  "parse_month_loop str i =
     (if i < 12 then
        (if str = month_names ! i then of_nat i + 1 else parse_month_loop str (i + 1))
      else 1)"
  by pat_completeness auto
termination by (relation "measure (\<lambda>(str, i). 12 - i)") auto

definition parse_month :: "string \<Rightarrow> cint" where
  "parse_month str = parse_month_loop str 0"

function parse_weekday_loop :: "string \<Rightarrow> nat \<Rightarrow> cint" where
  "parse_weekday_loop str i =
     (if i < 7 then
        (if str = weekday_names ! i then of_nat i else parse_weekday_loop str (i + 1))
      else 0)"
  by pat_completeness auto
termination by (relation "measure (\<lambda>(str, i). 7 - i)") auto

definition parse_weekday :: "string \<Rightarrow> cint" where
  "parse_weekday str = parse_weekday_loop str 0"

text \<open>
  \<^verbatim>\<open>generate_date\<close> declares its locals without initialising them: what they hold before
  \<^verbatim>\<open>sscanf\<close> is the parameter \<open>uninit\<close>. With no text (\<^verbatim>\<open>httpDate == NULL\<close>) the fields
  come from \<^verbatim>\<open>gmtime(time(NULL))\<close>: the clock's answer is the parameter \<open>tm_utc\<close>. The
  function gives the contents of the struct that \<^verbatim>\<open>generate_date\<close> returns; its allocation
  is in the section on release.
\<close>

record tm =
  tm_year :: cint
  tm_mon :: cint
  tm_mday :: cint
  tm_hour :: cint
  tm_min :: cint
  tm_sec :: cint
  tm_wday :: cint

definition generate_date :: "locals \<Rightarrow> tm \<Rightarrow> string option \<Rightarrow> cint \<Rightarrow> arcdate option" where
  "generate_date uninit tm_utc httpDate offset =
     (case httpDate of
        None \<Rightarrow>
          add_hours
            \<lparr>year = tm_year tm_utc + 1900, month = tm_mon tm_utc + 1, day = tm_mday tm_utc,
             hour = tm_hour tm_utc, minute = tm_min tm_utc, second = tm_sec tm_utc,
             weekday = tm_wday tm_utc, gmt_offset = offset\<rparr> offset
      | Some text \<Rightarrow>
          (let l = sscanf http_date_format text uninit
           in add_hours
                \<lparr>year = l_year l, month = parse_month (l_month l), day = l_day l,
                 hour = l_hour l, minute = l_minute l, second = l_second l,
                 weekday = parse_weekday (l_weekday l), gmt_offset = offset\<rparr> offset))"

section \<open>The formatter\<close>

text \<open>
  \<^verbatim>\<open>snprintf(buffer, 100, "%s, %02d %s %04d %02d:%02d:%02d GMT%+d", ...)\<close>:
  \<^verbatim>\<open>%02d\<close> and \<^verbatim>\<open>%04d\<close> pad with zeros to the width, the sign counted in the width;
  \<^verbatim>\<open>%+d\<close> always writes a sign; at most 99 bytes are kept. The two names are read from
  the tables by \<^verbatim>\<open>weekday\<close> and \<^verbatim>\<open>month - 1\<close>, with no defined result outside them.
\<close>

definition digit_char :: "nat \<Rightarrow> char" where
  "digit_char n = ''0123456789'' ! n"

fun dec_digits :: "nat \<Rightarrow> string" where
  "dec_digits n = (if n < 10 then [digit_char n] else dec_digits (n div 10) @ [digit_char (n mod 10)])"

definition fmt_0d :: "nat \<Rightarrow> cint \<Rightarrow> string" where
  "fmt_0d width i =
     (let sign = (if i <s 0 then ''-'' else '''');
          ds = dec_digits (nat \<bar>sint i\<bar>)
      in sign @ replicate (width - length sign - length ds) CHR ''0'' @ ds)"

definition fmt_plus_d :: "cint \<Rightarrow> string" where
  "fmt_plus_d i = (if i <s 0 then ''-'' else ''+'') @ dec_digits (nat \<bar>sint i\<bar>)"

definition to_date_string :: "arcdate \<Rightarrow> string option" where
  "to_date_string d =
     (if 0 \<le>s weekday d \<and> weekday d <s 7 \<and> 1 \<le>s month d \<and> month d \<le>s 12 then
        Some (take 99
          (weekday_names ! nat (sint (weekday d)) @ '', '' @ fmt_0d 2 (day d) @ '' '' @
           month_names ! nat (sint (month d - 1)) @ '' '' @ fmt_0d 4 (year d) @ '' '' @
           fmt_0d 2 (hour d) @ '':'' @ fmt_0d 2 (minute d) @ '':'' @ fmt_0d 2 (second d) @
           '' GMT'' @ fmt_plus_d (gmt_offset d)))
      else None)"

section \<open>Allocation and release\<close>

text \<open>
  A pointer to a timestamp is \<open>None\<close> (\<^verbatim>\<open>NULL\<close>) or the address of a block; the heap maps
  the addresses of the live blocks to their contents. \<^verbatim>\<open>free\<close> of the C library does
  nothing on \<^verbatim>\<open>NULL\<close>, releases a live block, and has no defined behaviour on any other
  address. \<^verbatim>\<open>malloc\<close>'s answer is the parameter \<open>fresh\<close> of \<open>generate_date_ptr\<close>: on
  \<^verbatim>\<open>NULL\<close> the function returns \<^verbatim>\<open>NULL\<close> at once.
\<close>

type_synonym heap = "nat \<rightharpoonup> arcdate"

definition c_free :: "nat option \<Rightarrow> heap \<Rightarrow> heap option" where
  "c_free p h =
     (case p of
        None \<Rightarrow> Some h
      | Some a \<Rightarrow> if h a \<noteq> None then Some (h(a := None)) else None)"

definition free_date :: "nat option \<Rightarrow> heap \<Rightarrow> heap option" where
  "free_date date h = (if date \<noteq> None then c_free date h else Some h)"

definition generate_date_ptr ::
  "nat option \<Rightarrow> locals \<Rightarrow> tm \<Rightarrow> string option \<Rightarrow> cint \<Rightarrow> heap \<Rightarrow> (nat option \<times> heap) option" where
  "generate_date_ptr fresh uninit tm_utc httpDate offset h =
     (case fresh of
        None \<Rightarrow> Some (None, h)
      | Some a \<Rightarrow>
          (case generate_date uninit tm_utc httpDate offset of
             None \<Rightarrow> None
           | Some d \<Rightarrow> Some (Some a, h(a \<mapsto> d))))"

section \<open>Notions of the specification\<close>

text \<open>The range invariants of the data model, as a predicate that can be evaluated.\<close>

definition date_ok :: "arcdate \<Rightarrow> bool" where
  "date_ok d =
     (1 \<le>s month d \<and> month d \<le>s 12 \<and> 1 \<le>s day d \<and>
      (case days_in_month (month d) (year d) of None \<Rightarrow> False | Some dim \<Rightarrow> day d \<le>s dim) \<and>
      0 \<le>s hour d \<and> hour d \<le>s 23 \<and> 0 \<le>s minute d \<and> minute d \<le>s 59 \<and>
      0 \<le>s weekday d \<and> weekday d \<le>s 6)"

text \<open>
  The text layout of the parser's input, \<^verbatim>\<open><Wkd>, <DD> <Mon> <YYYY> <HH>:<MM>:<SS> GMT\<close>,
  for the fields of a timestamp: names from the two tables, day, hour, minute and second
  zero-padded to two digits, the year to four. A well-formed HTTP date is such a text for
  fields in range.
\<close>

definition http_date_text :: "arcdate \<Rightarrow> string" where
  "http_date_text d =
     weekday_names ! nat (sint (weekday d)) @ '', '' @ fmt_0d 2 (day d) @ '' '' @
     month_names ! nat (sint (month d - 1)) @ '' '' @ fmt_0d 4 (year d) @ '' '' @
     fmt_0d 2 (hour d) @ '':'' @ fmt_0d 2 (minute d) @ '':'' @ fmt_0d 2 (second d) @ '' GMT''"

text \<open>Formatting what parsing with offset 0 returns.\<close>

definition round_trip :: "locals \<Rightarrow> tm \<Rightarrow> string \<Rightarrow> string option" where
  "round_trip uninit clk s =
     (case generate_date uninit clk (Some s) 0 of None \<Rightarrow> None | Some d \<Rightarrow> to_date_string d)"

text \<open>
  The weekday of a Gregorian date, 0 for Sunday, by the usual month-offset table. It is
  the reference that the \<^verbatim>\<open>weekday\<close> field is compared with; the source has no such
  function.
\<close>

definition gregorian_weekday :: "int \<Rightarrow> int \<Rightarrow> int \<Rightarrow> int" where
  "gregorian_weekday y m d =
     (let t = [0, 3, 2, 5, 0, 3, 5, 1, 4, 6, 2, 4];
          y' = (if m < 3 then y - 1 else y)
      in (y' + y' div 4 - y' div 100 + y' div 400 + t ! nat (m - 1) + d) mod 7)"

text \<open>
  Counters for the two loops of \<^verbatim>\<open>add_days\<close>: the recursion of the loop itself, with one
  added per iteration.
\<close>

function add_days_loop1_iters :: "arcdate \<Rightarrow> nat" where
  "add_days_loop1_iters d =
     (case days_in_month (month d) (year d) of
        None \<Rightarrow> 0
      | Some dim \<Rightarrow>
          if dim <s day d then
            Suc (add_days_loop1_iters
              (let d1 = d\<lparr>day := day d - dim\<rparr>;
                   d2 = d1\<lparr>month := month d1 + 1\<rparr>;
                   d3 = (if 12 <s month d2 then d2\<lparr>month := 1, year := year d2 + 1\<rparr> else d2)
               in d3\<lparr>weekday := c_mod (weekday d3 + 1) 7\<rparr>))
          else 0)"
  by pat_completeness auto
termination
proof (relation "measure (\<lambda>d. nat (sint (day d)))")
  show "wf (measure (\<lambda>d. nat (sint (day d))))" by simp
next
  fix d :: arcdate and dim :: cint
  assume a: "days_in_month (month d) (year d) = Some dim" and b: "dim <s day d"
  from b have lt: "sint dim < sint (day d)" by (simp add: word_sless_alt)
  with days_in_month_bounds [OF a] sint_bounds [of "day d"]
  have "sint (day d - dim) = sint (day d) - sint dim" by (intro sint_sub_in) linarith+
  with days_in_month_bounds [OF a] lt
  show "(let d1 = d\<lparr>day := day d - dim\<rparr>;
             d2 = d1\<lparr>month := month d1 + 1\<rparr>;
             d3 = (if 12 <s month d2 then d2\<lparr>month := 1, year := year d2 + 1\<rparr> else d2)
         in d3\<lparr>weekday := c_mod (weekday d3 + 1) 7\<rparr>, d)
          \<in> measure (\<lambda>d. nat (sint (day d)))"
    by (simp add: Let_def)
qed

function add_days_loop2_iters :: "arcdate \<Rightarrow> nat" where
  "add_days_loop2_iters d =
     (if day d <s 1 then
        (let d1 = d\<lparr>month := month d - 1\<rparr>;
             d2 = (if month d1 <s 1 then d1\<lparr>month := 12, year := year d1 - 1\<rparr> else d1)
         in case days_in_month (month d2) (year d2) of
              None \<Rightarrow> 0
            | Some dim \<Rightarrow>
                Suc (add_days_loop2_iters
                  (d2\<lparr>day := day d2 + dim, weekday := c_mod (weekday d2 + 6) 7\<rparr>)))
      else 0)"
  by pat_completeness auto
termination
proof (relation "measure (\<lambda>d. nat (1 - sint (day d)))")
  show "wf (measure (\<lambda>d. nat (1 - sint (day d))))" by simp
next
  fix d d1 d2 :: arcdate and dim :: cint
  assume lt: "day d <s 1"
    and d1: "d1 = d\<lparr>month := month d - 1\<rparr>"
    and d2: "d2 = (if month d1 <s 1 then d1\<lparr>month := 12, year := year d1 - 1\<rparr> else d1)"
    and a: "days_in_month (month d2) (year d2) = Some dim"
  have e: "day d2 = day d" using d1 d2 by simp
  from lt have l: "sint (day d) < 1" by (simp add: word_sless_alt)
  with days_in_month_bounds [OF a] sint_bounds [of "day d"]
  have "sint (day d + dim) = sint (day d) + sint dim" by (intro sint_add_in) linarith+
  with days_in_month_bounds [OF a] l e
  show "(d2\<lparr>day := day d2 + dim, weekday := c_mod (weekday d2 + 6) 7\<rparr>, d)
          \<in> measure (\<lambda>d. nat (1 - sint (day d)))"
    by simp
qed

text \<open>Sample values: the timestamp of \<^verbatim>\<open>test.c\<close>, a January 31, a February 15, a
  timestamp just after midnight at offset +12, a clock reading, and stale contents of the
  parser's locals.\<close>

definition wed_21_oct_2015 :: arcdate where
  "wed_21_oct_2015 =
     \<lparr>year = 2015, month = 10, day = 21, hour = 7, minute = 28, second = 0,
      weekday = 3, gmt_offset = 0\<rparr>"

definition jan_31 :: "cint \<Rightarrow> arcdate" where
  "jan_31 y =
     \<lparr>year = y, month = 1, day = 31, hour = 12, minute = 0, second = 0,
      weekday = 0, gmt_offset = 0\<rparr>"

definition feb_15_2023 :: arcdate where
  "feb_15_2023 =
     \<lparr>year = 2023, month = 2, day = 15, hour = 12, minute = 0, second = 0,
      weekday = 3, gmt_offset = 0\<rparr>"

definition midnight_gmt12 :: arcdate where
  "midnight_gmt12 =
     \<lparr>year = 2015, month = 10, day = 21, hour = 0, minute = 30, second = 0,
      weekday = 3, gmt_offset = 12\<rparr>"

definition epoch_tm :: tm where
  "epoch_tm = \<lparr>tm_year = 70, tm_mon = 0, tm_mday = 1, tm_hour = 0, tm_min = 0, tm_sec = 0, tm_wday = 4\<rparr>"

definition stale_locals :: locals where
  "stale_locals =
     \<lparr>l_weekday = ''?'', l_day = - 7, l_month = ''??'', l_year = 1215752191, l_hour = 77,
      l_minute = - 1, l_second = 4096\<rparr>"

text \<open>Abbreviations used in the proofs: the parts of the range invariants that the loops
  keep, and the bodies of the two loops.\<close>

definition roll_ok :: "arcdate \<Rightarrow> bool" where
  "roll_ok d = (1 \<le>s month d \<and> month d \<le>s 12 \<and> 0 \<le>s weekday d \<and> weekday d \<le>s 6)"

definition same_clock :: "arcdate \<Rightarrow> arcdate \<Rightarrow> bool" where
  "same_clock d d' =
     (hour d' = hour d \<and> minute d' = minute d \<and> second d' = second d \<and>
      gmt_offset d' = gmt_offset d)"

definition day_fits :: "arcdate \<Rightarrow> bool" where
  "day_fits d = (case days_in_month (month d) (year d) of None \<Rightarrow> False | Some dim \<Rightarrow> day d \<le>s dim)"

definition next_month :: "arcdate \<Rightarrow> cint \<Rightarrow> arcdate" where
  "next_month d dim =
     (let d1 = d\<lparr>day := day d - dim\<rparr>;
          d2 = d1\<lparr>month := month d1 + 1\<rparr>;
          d3 = (if 12 <s month d2 then d2\<lparr>month := 1, year := year d2 + 1\<rparr> else d2)
      in d3\<lparr>weekday := c_mod (weekday d3 + 1) 7\<rparr>)"

definition prev_month :: "arcdate \<Rightarrow> arcdate" where
  "prev_month d =
     (let d1 = d\<lparr>month := month d - 1\<rparr>
      in if month d1 <s 1 then d1\<lparr>month := 12, year := year d1 - 1\<rparr> else d1)"

definition borrow_month :: "arcdate \<Rightarrow> cint \<Rightarrow> arcdate" where
  "borrow_month d dim = (prev_month d)\<lparr>day := day d + dim, weekday := c_mod (weekday d + 6) 7\<rparr>"

section \<open>Properties of C integer arithmetic\<close>

lemma smod_between:
  "(0 \<le> (a::int) \<longrightarrow> 0 \<le> a smod b \<and> a smod b \<le> a) \<and>
   (a \<le> 0 \<longrightarrow> a \<le> a smod b \<and> a smod b \<le> 0)"
proof -
  have n: "0 \<le> \<bar>a\<bar> mod \<bar>b\<bar>"
    by (cases "b = 0") simp_all
  have u: "\<bar>a\<bar> mod \<bar>b\<bar> \<le> \<bar>a\<bar>"
    by (rule zmod_le_nonneg_dividend) simp
  from n u show ?thesis
    by (auto simp: signed_modulo_int_def sgn_if)
qed

lemma sint_c_mod: "sint (c_mod a b) = sint a smod sint b"
proof -
  from smod_between [of "sint a" "sint b"] sint_bounds [of a]
  have "- 2147483648 \<le> sint a smod sint b" "sint a smod sint b \<le> 2147483647"
    by linarith+
  then show ?thesis
    unfolding c_mod_def by (rule sint_of_int_in)
qed

lemma sint_c_div: "0 < sint b \<Longrightarrow> sint (c_div a b) = sint a sdiv sint b"
proof -
  assume b: "0 < sint b"
  have r: "sint a sdiv sint b \<in> {- \<bar>sint a\<bar>..\<bar>sint a\<bar>}" by (rule sdiv_int_range)
  have "sint a < 0 \<Longrightarrow> sint a sdiv sint b \<le> 0"
    using b by (simp add: signed_divide_int_def sgn_if pos_imp_zdiv_nonneg_iff)
  with r sint_bounds [of a]
  have "- 2147483648 \<le> sint a sdiv sint b" "sint a sdiv sint b \<le> 2147483647"
    by (auto simp: abs_if split: if_splits)
  then show ?thesis
    unfolding c_div_def by (rule sint_of_int_in)
qed

section \<open>Properties of the calendar engine\<close>

declare add_days_loop1.simps [simp del] add_days_loop2.simps [simp del]

lemma wrap_smod: "0 < b \<Longrightarrow> ((a::int) smod b + b) smod b = a mod b"
proof (cases "0 \<le> a")
  case True
  assume b: "0 < b"
  from True b have 1: "a smod b = a mod b" by (simp add: smod_mod_positive)
  from b have "0 \<le> a mod b + b" by (simp add: add_nonneg_nonneg)
  with b have "(a mod b + b) smod b = (a mod b + b) mod b" by (simp add: smod_mod_positive)
  with 1 show ?thesis by simp
next
  case False
  assume b: "0 < b"
  from False b smod_int_compares(3) [of a b] have lo: "0 \<le> a smod b + b" by simp
  with b have "(a smod b + b) smod b = (a smod b + b) mod b" by (simp add: smod_mod_positive)
  also have "\<dots> = (a smod b) mod b" by simp
  also have "\<dots> = a mod b"
    by (simp add: signed_modulo_int_eq_modulo_int)
  finally show ?thesis .
qed

lemma sdiv_small: "0 \<le> (a::int) \<Longrightarrow> a < b \<Longrightarrow> a sdiv b = 0"
  by (simp add: signed_divide_int_def)

lemma carry_eq:
  "0 < b \<Longrightarrow> (if (t::int) < 0 then t sdiv b - 1 else t sdiv b) = t div b - of_bool (t < 0 \<and> b dvd t)"
  by (auto simp: signed_divide_int_eq_divide_int sgn_if)

text \<open>The double modulo \<^verbatim>\<open>(t % b + b) % b\<close> on machine integers is the floor remainder.\<close>

lemma c_wrap:
  assumes "0 < sint b" "sint b \<le> 1073741823"
  shows "sint (c_mod (c_mod t b + b) b) = sint t mod sint b"
proof -
  from smod_int_range [of "sint b" "sint t"] assms
  have r: "- sint b < sint t smod sint b" "sint t smod sint b < sint b" by auto
  with assms have "sint (c_mod t b + b) = sint t smod sint b + sint b"
    unfolding sint_c_mod [symmetric] by (intro sint_add_in) (simp_all add: sint_c_mod)
  then show ?thesis
    using assms by (simp add: sint_c_mod wrap_smod)
qed

lemma c_div_small: "0 \<le> sint a \<Longrightarrow> sint a < sint b \<Longrightarrow> c_div a b = 0"
  by (simp add: c_div_def sdiv_small)

lemma word_from_sint: "sint (a::cint) = k \<Longrightarrow> a = word_of_int k"
proof -
  assume h: "sint a = k"
  have "a = word_of_int (sint a)" by simp
  then show ?thesis unfolding h .
qed

lemma sint_plus_one: "sint (a::cint) \<le> 2147483646 \<Longrightarrow> sint (a + 1) = sint a + 1"
  using sint_bounds [of a] sint_add_in [of a 1] by simp

lemma sint_minus_one: "- 2147483647 \<le> sint (a::cint) \<Longrightarrow> sint (a - 1) = sint a - 1"
  using sint_bounds [of a] sint_sub_in [of a 1] by simp

lemma weekday_step:
  assumes "0 \<le> sint (w::cint)" "sint w \<le> 6"
  shows "0 \<le> sint (c_mod (w + 1) 7) \<and> sint (c_mod (w + 1) 7) \<le> 6 \<and>
         0 \<le> sint (c_mod (w + 6) 7) \<and> sint (c_mod (w + 6) 7) \<le> 6"
proof -
  from assms have 1: "sint (w + 1) = sint w + 1" by (simp add: sint_plus_one)
  from assms sint_add_in [of w 6] have 6: "sint (w + 6) = sint w + 6" by simp
  from assms show ?thesis
    using smod_int_compares(1) [of "sint w + 1" 7] smod_int_compares(2) [of "sint w + 1" 7]
      smod_int_compares(1) [of "sint w + 6" 7] smod_int_compares(2) [of "sint w + 6" 7]
    by (simp add: sint_c_mod 1 6)
qed

lemma days_in_month_Some:
  "1 \<le> sint m \<Longrightarrow> sint m \<le> 12 \<Longrightarrow> \<exists>dim. days_in_month m y = Some dim"
  by (simp add: days_in_month_def word_sle_eq)

lemma roll_ok_sint:
  "roll_ok d \<longleftrightarrow> 1 \<le> sint (month d) \<and> sint (month d) \<le> 12 \<and>
     0 \<le> sint (weekday d) \<and> sint (weekday d) \<le> 6"
  by (simp add: roll_ok_def word_sle_eq)

lemma loop1_unfold:
  "days_in_month (month d) (year d) = Some dim \<Longrightarrow>
   add_days_loop1 d = (if dim <s day d then add_days_loop1 (next_month d dim) else Some d)"
  by (subst add_days_loop1.simps) (simp add: next_month_def)

lemma next_month_fields:
  "day (next_month d dim) = day d - dim"
  "hour (next_month d dim) = hour d"
  "minute (next_month d dim) = minute d"
  "second (next_month d dim) = second d"
  "gmt_offset (next_month d dim) = gmt_offset d"
  "weekday (next_month d dim) = c_mod (weekday d + 1) 7"
  "month (next_month d dim) = (if 12 <s month d + 1 then 1 else month d + 1)"
  "year (next_month d dim) = (if 12 <s month d + 1 then year d + 1 else year d)"
  by (simp_all add: next_month_def Let_def)

lemma next_month_roll_ok: "roll_ok d \<Longrightarrow> roll_ok (next_month d dim)"
proof -
  assume r: "roll_ok d"
  then have m: "sint (month d + 1) = sint (month d) + 1"
    by (simp add: roll_ok_sint sint_plus_one)
  from r weekday_step [of "weekday d"] show ?thesis
    by (simp add: roll_ok_sint next_month_fields word_sless_alt m)
qed

lemma loop1_induct [consumes 0, case_names step]:
  assumes "\<And>d. (\<And>dim. days_in_month (month d) (year d) = Some dim \<Longrightarrow> dim <s day d \<Longrightarrow>
              P (next_month d dim)) \<Longrightarrow> P d"
  shows "P d"
proof (induction d rule: add_days_loop1.induct)
  case (1 d)
  show ?case
  proof (rule assms)
    fix dim
    assume "days_in_month (month d) (year d) = Some dim" and "dim <s day d"
    from "1.IH" [OF this] show "P (next_month d dim)"
      unfolding next_month_def .
  qed
qed

lemma next_month_day:
  assumes "days_in_month (month d) (year d) = Some dim" "dim <s day d"
  shows "sint (day (next_month d dim)) = sint (day d) - sint dim"
proof -
  from assms(2) have "sint dim < sint (day d)" by (simp add: word_sless_alt)
  with days_in_month_bounds [OF assms(1)] sint_bounds [of "day d"]
  have "sint (day d - dim) = sint (day d) - sint dim" by (intro sint_sub_in) linarith+
  then show ?thesis by (simp add: next_month_fields)
qed

lemma loop1_post:
  "roll_ok d \<Longrightarrow>
   \<exists>d'. add_days_loop1 d = Some d' \<and> roll_ok d' \<and> same_clock d d' \<and> day_fits d' \<and>
        (1 \<le> sint (day d) \<longrightarrow> 1 \<le> sint (day d'))"
proof (induction d rule: loop1_induct)
  case (step d)
  from step.prems obtain dim where dim: "days_in_month (month d) (year d) = Some dim"
    using days_in_month_Some [of "month d" "year d"] by (auto simp: roll_ok_sint)
  show ?case
  proof (cases "dim <s day d")
    case True
    have eq: "add_days_loop1 d = add_days_loop1 (next_month d dim)"
      using loop1_unfold [OF dim] True by simp
    from step.IH [OF dim True next_month_roll_ok [OF step.prems]]
    obtain d' where r: "add_days_loop1 (next_month d dim) = Some d'" "roll_ok d'"
      "same_clock (next_month d dim) d'" "day_fits d'"
      "1 \<le> sint (day (next_month d dim)) \<longrightarrow> 1 \<le> sint (day d')"
      by blast
    from True have "1 \<le> sint (day (next_month d dim))"
      by (simp add: next_month_day [OF dim True] word_sless_alt)
    with r eq show ?thesis by (auto simp: same_clock_def next_month_fields)
  next
    case False
    with loop1_unfold [OF dim] dim show ?thesis
      by (simp add: same_clock_def day_fits_def step.prems word_sless_alt word_sle_eq)
  qed
qed

lemma prev_month_fields:
  "day (prev_month d) = day d"
  "hour (prev_month d) = hour d"
  "minute (prev_month d) = minute d"
  "second (prev_month d) = second d"
  "gmt_offset (prev_month d) = gmt_offset d"
  "weekday (prev_month d) = weekday d"
  "month (prev_month d) = (if month d - 1 <s 1 then 12 else month d - 1)"
  "year (prev_month d) = (if month d - 1 <s 1 then year d - 1 else year d)"
  by (simp_all add: prev_month_def Let_def)

lemma loop2_unfold:
  "add_days_loop2 d =
     (if day d <s 1 then
        (case days_in_month (month (prev_month d)) (year (prev_month d)) of
           None \<Rightarrow> None
         | Some dim \<Rightarrow> add_days_loop2 (borrow_month d dim))
      else Some d)"
  by (subst add_days_loop2.simps)
     (simp add: prev_month_def borrow_month_def Let_def cong: if_cong option.case_cong)

lemma loop2_induct [consumes 0, case_names step]:
  assumes "\<And>d. (\<And>dim. day d <s 1 \<Longrightarrow>
              days_in_month (month (prev_month d)) (year (prev_month d)) = Some dim \<Longrightarrow>
              P (borrow_month d dim)) \<Longrightarrow> P d"
  shows "P d"
proof (induction d rule: add_days_loop2.induct)
  case (1 d)
  show ?case
  proof (rule assms)
    fix dim
    assume lt: "day d <s 1"
      and dim: "days_in_month (month (prev_month d)) (year (prev_month d)) = Some dim"
    from "1.IH" [OF lt refl refl, of dim] dim
    show "P (borrow_month d dim)"
      by (cases "month d - 1 <s 1") (simp_all add: prev_month_def borrow_month_def Let_def)
  qed
qed

lemma borrow_month_fields:
  "day (borrow_month d dim) = day d + dim"
  "hour (borrow_month d dim) = hour d"
  "minute (borrow_month d dim) = minute d"
  "second (borrow_month d dim) = second d"
  "gmt_offset (borrow_month d dim) = gmt_offset d"
  "weekday (borrow_month d dim) = c_mod (weekday d + 6) 7"
  "month (borrow_month d dim) = month (prev_month d)"
  "year (borrow_month d dim) = year (prev_month d)"
  by (simp_all add: borrow_month_def prev_month_fields)

lemma prev_month_range:
  assumes "roll_ok d"
  shows "1 \<le> sint (month (prev_month d))" "sint (month (prev_month d)) \<le> 12"
proof -
  from assms have m: "sint (month d - 1) = sint (month d) - 1"
    by (simp add: roll_ok_sint sint_minus_one)
  from assms show "1 \<le> sint (month (prev_month d))" "sint (month (prev_month d)) \<le> 12"
    by (simp_all add: roll_ok_sint prev_month_fields word_sless_alt m)
qed

lemma borrow_month_roll_ok: "roll_ok d \<Longrightarrow> roll_ok (borrow_month d dim)"
  using weekday_step [of "weekday d"] prev_month_range [of d]
  by (simp add: roll_ok_sint borrow_month_fields)

lemma borrow_month_day:
  assumes "days_in_month m y = Some dim" "day d <s 1"
  shows "sint (day (borrow_month d dim)) = sint (day d) + sint dim"
proof -
  from assms(2) have "sint (day d) < 1" by (simp add: word_sless_alt)
  with days_in_month_bounds [OF assms(1)] sint_bounds [of "day d"]
  have "sint (day d + dim) = sint (day d) + sint dim" by (intro sint_add_in) linarith+
  then show ?thesis by (simp add: borrow_month_fields)
qed

lemma loop2_post:
  "roll_ok d \<Longrightarrow> day_fits d \<Longrightarrow>
   \<exists>d'. add_days_loop2 d = Some d' \<and> roll_ok d' \<and> same_clock d d' \<and> day_fits d' \<and>
        1 \<le> sint (day d')"
proof (induction d rule: loop2_induct)
  case (step d)
  show ?case
  proof (cases "day d <s 1")
    case True
    from days_in_month_Some [OF prev_month_range [OF step.prems(1)]] obtain dim
      where dim: "days_in_month (month (prev_month d)) (year (prev_month d)) = Some dim"
      by blast
    have eq: "add_days_loop2 d = add_days_loop2 (borrow_month d dim)"
      using True dim by (subst loop2_unfold) simp
    have fits: "day_fits (borrow_month d dim)"
      using True dim borrow_month_day [OF dim True]
      by (simp add: day_fits_def borrow_month_fields(7,8) word_sle_eq word_sless_alt)
    from step.IH [OF True dim borrow_month_roll_ok [OF step.prems(1)] fits] eq
    show ?thesis by (auto simp: same_clock_def borrow_month_fields)
  next
    case False
    then show ?thesis
      using step.prems by (subst loop2_unfold) (simp add: same_clock_def word_sless_alt)
  qed
qed

lemma add_days_post:
  assumes "roll_ok d"
  shows "\<exists>d'. add_days d n = Some d' \<and> roll_ok d' \<and> same_clock d d' \<and> day_fits d' \<and>
           1 \<le> sint (day d')"
proof -
  have "roll_ok (d\<lparr>day := day d + n\<rparr>)" using assms by (simp add: roll_ok_def)
  from loop1_post [OF this] obtain d1 where
    d1: "add_days_loop1 (d\<lparr>day := day d + n\<rparr>) = Some d1" "roll_ok d1"
      "same_clock (d\<lparr>day := day d + n\<rparr>) d1" "day_fits d1"
    by blast
  from loop2_post [OF d1(2) d1(4)] obtain d2 where
    d2: "add_days_loop2 d1 = Some d2" "roll_ok d2" "same_clock d1 d2" "day_fits d2"
      "1 \<le> sint (day d2)"
    by blast
  from d1 d2 show ?thesis by (simp add: add_days_def same_clock_def)
qed

lemma date_ok_iff:
  "date_ok d \<longleftrightarrow> roll_ok d \<and> day_fits d \<and> 1 \<le> sint (day d) \<and>
     0 \<le> sint (hour d) \<and> sint (hour d) \<le> 23 \<and> 0 \<le> sint (minute d) \<and> sint (minute d) \<le> 59"
  by (auto simp: date_ok_def roll_ok_def day_fits_def word_sle_eq)

declare add_days_loop1_iters.simps [simp del] add_days_loop2_iters.simps [simp del]

lemma add_hours_post:
  assumes "roll_ok d"
  shows "\<exists>d'. add_hours d n = Some d' \<and> roll_ok d' \<and> day_fits d' \<and> 1 \<le> sint (day d') \<and>
           sint (hour d') = sint (hour d + n) mod 24 \<and> 0 \<le> sint (hour d') \<and> sint (hour d') \<le> 23 \<and>
           minute d' = minute d \<and> second d' = second d \<and> gmt_offset d' = gmt_offset d"
proof -
  define t where "t = hour d + n"
  define c where "c = (if t <s 0 then c_div t 24 - 1 else c_div t 24)"
  define e where "e = d\<lparr>hour := c_mod (c_mod t 24 + 24) 24\<rparr>"
  have eq: "add_hours d n = add_days e c"
    by (simp add: add_hours_def Let_def c_def e_def t_def)
  have r: "roll_ok e" using assms by (simp add: roll_ok_def e_def)
  have h: "sint (hour e) = sint t mod 24"
    using c_wrap [of 24 t] by (simp add: e_def)
  have "0 \<le> sint t mod 24" "sint t mod 24 \<le> 23"
    using pos_mod_bound [of 24 "sint t"] by simp_all
  with add_days_post [OF r, of c] eq h show ?thesis
    by (auto simp: same_clock_def t_def) (simp_all add: e_def)
qed

lemma add_minutes_post:
  assumes "roll_ok d"
  shows "\<exists>d'. add_minutes d n = Some d' \<and> roll_ok d' \<and> day_fits d' \<and> 1 \<le> sint (day d') \<and>
           0 \<le> sint (hour d') \<and> sint (hour d') \<le> 23 \<and>
           sint (minute d') = sint (minute d + n) mod 60 \<and> second d' = second d \<and>
           gmt_offset d' = gmt_offset d"
proof -
  define t where "t = minute d + n"
  define c where "c = (if t <s 0 then c_div t 60 - 1 else c_div t 60)"
  define e where "e = d\<lparr>minute := c_mod (c_mod t 60 + 60) 60\<rparr>"
  have eq: "add_minutes d n = add_hours e c"
    by (simp add: add_minutes_def Let_def c_def e_def t_def)
  have r: "roll_ok e" using assms by (simp add: roll_ok_def e_def)
  have h: "sint (minute e) = sint t mod 60"
    using c_wrap [of 60 t] by (simp add: e_def)
  have k: "second e = second d" "gmt_offset e = gmt_offset d" by (simp_all add: e_def)
  from add_hours_post [OF r, of c] eq h k show ?thesis
    by (auto simp: t_def)
qed

lemma days_in_month_not_feb:
  "m \<noteq> 2 \<Longrightarrow> days_in_month m y = days_in_month m y'"
  by (simp add: days_in_month_def)

lemma days_in_month_feb:
  "days_in_month 2 y = Some (if is_leap_year y then 29 else 28)"
  by (simp add: days_in_month_def)

lemma add_years_fields:
  "year (add_years d n) = year d + n"
  "month (add_years d n) = month d"
  "hour (add_years d n) = hour d"
  "minute (add_years d n) = minute d"
  "second (add_years d n) = second d"
  "weekday (add_years d n) = weekday d"
  "gmt_offset (add_years d n) = gmt_offset d"
  "day (add_years d n) =
     (if month d = 2 \<and> day d = 29 \<and> \<not> is_leap_year (year d + n) then 28 else day d)"
  by (simp_all add: add_years_def Let_def)

lemma sint_le_28: "sint (a::cint) \<le> 29 \<Longrightarrow> a \<noteq> 29 \<Longrightarrow> sint a \<le> 28"
proof -
  assume h: "sint a \<le> 29" and n: "a \<noteq> 29"
  have "sint a \<noteq> 29"
  proof
    assume "sint a = 29"
    from word_from_sint [OF this] n show False by simp
  qed
  with h show ?thesis by simp
qed

lemma add_years_ok: "date_ok d \<Longrightarrow> date_ok (add_years d n)"
proof (cases "month d = 2")
  case True
  assume "date_ok d"
  with True show ?thesis
    by (auto simp: date_ok_def add_years_fields days_in_month_feb word_sle_eq sint_le_28
             split: if_splits)
next
  case False
  assume "date_ok d"
  with False days_in_month_not_feb [OF False, of "year d + n" "year d"] show ?thesis
    by (simp add: date_ok_def add_years_fields cong: option.case_cong)
qed

lemma date_ok_day: "date_ok d \<Longrightarrow> 1 \<le> sint (day d) \<and> sint (day d) \<le> 31"
  using days_in_month_bounds [of "month d" "year d"]
  by (auto simp: date_ok_def word_sle_eq split: option.splits)

lemma add_months_post:
  assumes "date_ok d"
  shows "\<exists>d' dim. add_months d n = Some d' \<and> date_ok d' \<and>
           sint (month d') = sint (month d + n - 1) mod 12 + 1 \<and>
           days_in_month (month d') (year d') = Some dim \<and>
           sint (day d') = min (sint (day d)) (sint dim) \<and> hour d' = hour d \<and>
           minute d' = minute d \<and> second d' = second d \<and> weekday d' = weekday d \<and>
           gmt_offset d' = gmt_offset d \<and>
           year d' = year d + (if month d + n - 1 <s 0 then c_div (month d + n - 1) 12 - 1
                               else c_div (month d + n - 1) 12)"
proof -
  define t where "t = month d + n - 1"
  define c where "c = (if t <s 0 then c_div t 12 - 1 else c_div t 12)"
  define m where "m = c_mod (c_mod t 12 + 12) 12 + 1"
  define d1 where "d1 = add_years (d\<lparr>month := m\<rparr>) c"
  have w: "sint (c_mod (c_mod t 12 + 12) 12) = sint t mod 12"
    using c_wrap [of 12 t] by simp
  have "0 \<le> sint t mod 12" "sint t mod 12 \<le> 11"
    using pos_mod_bound [of 12 "sint t"] by simp_all
  with w have ms: "sint m = sint t mod 12 + 1"
    unfolding m_def by (simp add: sint_plus_one)
  with \<open>0 \<le> sint t mod 12\<close> \<open>sint t mod 12 \<le> 11\<close>
  have mr: "1 \<le> sint m" "sint m \<le> 12" by simp_all
  from days_in_month_Some [OF mr] obtain dim
    where dim: "days_in_month m (year d + c) = Some dim" by blast
  have f: "month d1 = m" "year d1 = year d + c" by (simp_all add: d1_def add_years_fields)
  have eq: "add_months d n = Some (if dim <s day d1 then d1\<lparr>day := dim\<rparr> else d1)"
    using dim f by (simp add: add_months_def Let_def flip: t_def c_def m_def d1_def)
  have d1day: "day d1 = (if m = 2 \<and> day d = 29 \<and> \<not> is_leap_year (year d + c) then 28 else day d)"
    by (simp add: d1_def add_years_fields)
  note dayd = date_ok_day [OF assms]
  let ?r = "if dim <s day d1 then d1\<lparr>day := dim\<rparr> else d1"
  have min_eq: "sint (day ?r) = min (sint (day d)) (sint dim)"
    using dim d1day by (auto simp: days_in_month_feb word_sless_alt split: if_splits)
  have g: "month ?r = m" "year ?r = year d + c" "hour ?r = hour d" "minute ?r = minute d"
    "second ?r = second d" "weekday ?r = weekday d" "gmt_offset ?r = gmt_offset d"
    by (simp_all add: d1_def add_years_fields)
  have "date_ok ?r"
    using assms g mr dim min_eq dayd days_in_month_bounds [OF dim]
    unfolding date_ok_def word_sle_eq by (simp del: add_years_fields split del: if_split)
  with eq g dim min_eq ms show ?thesis
    unfolding c_def t_def by (intro exI [of _ ?r] exI [of _ dim]) simp
qed

lemma loop1_iters_unfold:
  "days_in_month (month d) (year d) = Some dim \<Longrightarrow>
   add_days_loop1_iters d =
     (if dim <s day d then Suc (add_days_loop1_iters (next_month d dim)) else 0)"
  by (subst add_days_loop1_iters.simps) (simp add: next_month_def)

lemma loop2_iters_unfold:
  "add_days_loop2_iters d =
     (if day d <s 1 then
        (case days_in_month (month (prev_month d)) (year (prev_month d)) of
           None \<Rightarrow> 0
         | Some dim \<Rightarrow> Suc (add_days_loop2_iters (borrow_month d dim)))
      else 0)"
  by (subst add_days_loop2_iters.simps)
     (simp add: prev_month_def borrow_month_def Let_def cong: if_cong option.case_cong)

lemma loop1_iters_bound: "28 * int (add_days_loop1_iters d) \<le> max 0 (sint (day d) - 1)"
proof (induction d rule: loop1_induct)
  case (step d)
  show ?case
  proof (cases "days_in_month (month d) (year d)")
    case None
    then show ?thesis by (subst add_days_loop1_iters.simps) simp
  next
    case (Some dim)
    show ?thesis
    proof (cases "dim <s day d")
      case True
      from step.IH [OF Some True]
      have "28 * int (add_days_loop1_iters (next_month d dim))
              \<le> max 0 (sint (day d) - sint dim - 1)"
        by (simp add: next_month_day [OF Some True])
      with True days_in_month_bounds [OF Some] show ?thesis
        by (simp add: loop1_iters_unfold [OF Some] word_sless_alt)
    next
      case False
      then show ?thesis by (simp add: loop1_iters_unfold [OF Some])
    qed
  qed
qed

lemma loop2_iters_bound: "28 * int (add_days_loop2_iters d) \<le> max 0 (28 - sint (day d))"
proof (induction d rule: loop2_induct)
  case (step d)
  show ?case
  proof (cases "day d <s 1")
    case True
    show ?thesis
    proof (cases "days_in_month (month (prev_month d)) (year (prev_month d))")
      case None
      with True show ?thesis by (subst loop2_iters_unfold) simp
    next
      case (Some dim)
      from True have "sint (day d) < 1" by (simp add: word_sless_alt)
      with step.IH [OF True Some] True days_in_month_bounds [OF Some] Some
      show ?thesis
        by (subst loop2_iters_unfold)
           (simp add: borrow_month_day [OF Some True] max_def split: if_splits)
    qed
  next
    case False
    then show ?thesis by (subst loop2_iters_unfold) simp
  qed
qed

lemma loop1_day_lower: "add_days_loop1 d = Some d' \<Longrightarrow> min 1 (sint (day d)) \<le> sint (day d')"
proof (induction d rule: loop1_induct)
  case (step d)
  from step.prems obtain dim where dim: "days_in_month (month d) (year d) = Some dim"
    by (subst (asm) add_days_loop1.simps) (auto split: option.splits)
  show ?case
  proof (cases "dim <s day d")
    case True
    with step.prems loop1_unfold [OF dim]
    have "add_days_loop1 (next_month d dim) = Some d'" by simp
    with step.IH [OF dim True] have "min 1 (sint (day (next_month d dim))) \<le> sint (day d')"
      by simp
    with True days_in_month_bounds [OF dim] show ?thesis
      by (simp add: next_month_day [OF dim True] word_sless_alt)
  next
    case False
    with step.prems loop1_unfold [OF dim] show ?thesis by simp
  qed
qed

lemma abs_sint_add: "\<bar>sint (a + b :: cint)\<bar> \<le> \<bar>sint a + sint b\<bar>"
proof (cases "- 2147483648 \<le> sint a + sint b \<and> sint a + sint b \<le> 2147483647")
  case True
  then show ?thesis by (simp add: sint_add_in)
next
  case False
  with sint_bounds [of "a + b"] show ?thesis by linarith
qed

lemma zero_delta:
  assumes "date_ok d"
  shows "add_days d 0 = Some d \<and> add_hours d 0 = Some d \<and> add_minutes d 0 = Some d \<and>
         add_months d 0 = Some d \<and> add_years d 0 = d"
proof -
  from assms obtain dim where dim: "days_in_month (month d) (year d) = Some dim"
    and fit: "sint (day d) \<le> sint dim" and lo: "1 \<le> sint (day d)"
    by (auto simp: date_ok_def word_sle_eq split: option.splits)
  have days: "add_days d 0 = Some d"
    using fit lo by (simp add: add_days_def loop1_unfold [OF dim] loop2_unfold word_sless_alt)
  from assms have hr: "0 \<le> sint (hour d)" "sint (hour d) \<le> 23"
    and mr: "0 \<le> sint (minute d)" "sint (minute d) \<le> 59"
    and mo: "1 \<le> sint (month d)" "sint (month d) \<le> 12"
    by (simp_all add: date_ok_def word_sle_eq)
  have "sint (c_mod (c_mod (hour d) 24 + 24) 24) = sint (hour d)"
    using c_wrap [of 24 "hour d"] hr by simp
  then have h: "c_mod (c_mod (hour d) 24 + 24) 24 = hour d" by (rule signed_word_eqI)
  have hc: "c_div (hour d) 24 = 0" using hr by (simp add: c_div_small)
  have hours: "add_hours d 0 = Some d"
    using hr days by (simp add: add_hours_def h hc word_sless_alt)
  have "sint (c_mod (c_mod (minute d) 60 + 60) 60) = sint (minute d)"
    using c_wrap [of 60 "minute d"] mr by simp
  then have m: "c_mod (c_mod (minute d) 60 + 60) 60 = minute d" by (rule signed_word_eqI)
  have mc: "c_div (minute d) 60 = 0" using mr by (simp add: c_div_small)
  have minutes: "add_minutes d 0 = Some d"
    using mr hours by (simp add: add_minutes_def m mc word_sless_alt)
  have years: "add_years d 0 = d"
    using dim fit by (auto simp: add_years_def days_in_month_feb)
  from mo have s1: "sint (month d - 1) = sint (month d) - 1" by (simp add: sint_minus_one)
  have "sint (c_mod (c_mod (month d - 1) 12 + 12) 12) = sint (month d - 1)"
    using c_wrap [of 12 "month d - 1"] mo s1 by simp
  then have mm: "c_mod (c_mod (month d - 1) 12 + 12) 12 = month d - 1" by (rule signed_word_eqI)
  have cc: "c_div (month d - 1) 12 = 0" using mo s1 by (simp add: c_div_small)
  have months: "add_months d 0 = Some d"
    using mo s1 years dim fit by (simp add: add_months_def mm cc word_sless_alt)
  from days hours minutes months years show ?thesis by simp
qed

lemma wed_date_ok: "date_ok wed_21_oct_2015"
  by code_simp

lemma jan_31_ok: "date_ok (jan_31 2023)" "date_ok (jan_31 2024)"
  by code_simp+

lemma sint_sum_pred:
  assumes "- 2147483648 \<le> sint a + sint b - 1" "sint a + sint b - 1 \<le> 2147483647"
  shows "sint (a + b - 1 :: cint) = sint a + sint b - 1"
proof -
  have "word_of_int (sint a + sint b - 1) = (a + b - 1 :: cint)"
    by (simp only: of_int_diff of_int_add of_int_sint of_int_1 scast_id)
  with sint_of_int_in [OF assms] show ?thesis by (simp only:)
qed

section \<open>Properties of the parser and the formatter\<close>

declare dec_digits.simps [simp del]

lemma digit_char_props:
  assumes "n < 10"
  shows "isdigit (digit_char n)" "digit_val (digit_char n) = int n"
    "\<not> isspace (digit_char n)" "digit_char n \<noteq> CHR ''-''" "digit_char n \<noteq> CHR ''+''"
proof -
  from assms have n: "n \<in> {0, 1, 2, 3, 4, 5, 6, 7, 8, 9}" by (simp; arith)
  then show "isdigit (digit_char n)" by (auto simp: digit_char_def isdigit_def)
  from n show "digit_val (digit_char n) = int n" by (auto simp: digit_char_def digit_val_def)
  from n show "\<not> isspace (digit_char n)" by (auto simp: digit_char_def isspace_def)
  from n show "digit_char n \<noteq> CHR ''-''" by (auto simp: digit_char_def)
  from n show "digit_char n \<noteq> CHR ''+''" by (auto simp: digit_char_def)
qed

lemma digits_val_snoc: "digits_val (ds @ [c]) = 10 * digits_val ds + digit_val c"
  by (simp add: digits_val_def)

lemma dec_digits_props:
  "dec_digits n \<noteq> [] \<and> (\<forall>c\<in>set (dec_digits n). isdigit c) \<and> digits_val (dec_digits n) = int n"
proof (induction n rule: dec_digits.induct)
  case (1 n)
  show ?case
  proof (cases "n < 10")
    case True
    then show ?thesis
      by (subst (1 2 3) dec_digits.simps) (simp add: digit_char_props digits_val_def)
  next
    case False
    have m: "n mod 10 < 10" by simp
    have e: "10 * int (n div 10) + int (n mod 10) = int n"
      by (simp flip: of_nat_mult of_nat_add add: of_nat_numeral [symmetric, where 'a=int] del: of_nat_numeral of_nat_mult of_nat_add)
    from False "1.IH" e show ?thesis
      by (subst (1 2 3) dec_digits.simps)
         (simp add: digits_val_snoc digit_char_props [OF m])
  qed
qed

lemma dec_digits_length: "n < 10 ^ k \<Longrightarrow> 0 < k \<Longrightarrow> length (dec_digits n) \<le> k"
proof (induction n arbitrary: k rule: dec_digits.induct)
  case (1 n)
  show ?case
  proof (cases "n < 10")
    case True
    with "1.prems" show ?thesis by (subst dec_digits.simps) simp
  next
    case False
    with "1.prems" have k: "1 < k" by (cases "k = 1") auto
    then obtain j where j: "k = Suc j" "0 < j" by (cases k) auto
    with "1.prems" have "n div 10 < 10 ^ j"
      by (simp add: less_mult_imp_div_less mult.commute)
    from "1.IH" [OF False this j(2)] False j show ?thesis
      by (subst dec_digits.simps) simp
  qed
qed

lemma digits_val_zeros: "digits_val (replicate k CHR ''0'' @ ds) = digits_val ds"
proof -
  have z: "foldl (\<lambda>acc c. 10 * acc + digit_val c) 0 (replicate k CHR ''0'') = 0"
    by (induction k) (simp_all add: digit_val_def)
  show ?thesis by (simp add: digits_val_def z)
qed

lemma isdigit_zero: "isdigit CHR ''0''"
  by (simp add: isdigit_def)

lemma fmt_0d_props:
  assumes "0 \<le> sint i"
  shows "fmt_0d w i \<noteq> []" "\<forall>c\<in>set (fmt_0d w i). isdigit c" "digits_val (fmt_0d w i) = sint i"
  using assms dec_digits_props [of "nat (sint i)"]
  by (auto simp: fmt_0d_def Let_def digits_val_zeros isdigit_zero word_sless_alt)

lemma fmt_0d_length:
  assumes "0 \<le> sint i" "sint i < 10 ^ w" "0 < w"
  shows "length (fmt_0d w i) = w"
proof -
  from assms have "nat (sint i) < 10 ^ w"
    by (simp add: nat_less_iff)
  from dec_digits_length [OF this assms(3)] assms(1) show ?thesis
    by (simp add: fmt_0d_def Let_def word_sless_alt)
qed

lemma isdigit_not_space: "isdigit c \<Longrightarrow> \<not> isspace c"
  by (auto simp: isdigit_def isspace_def)

lemma isdigit_not_sign: "isdigit c \<Longrightarrow> c \<noteq> CHR ''-'' \<and> c \<noteq> CHR ''+''"
  by (auto simp: isdigit_def)

lemma skip_ws_digits:
  "ds \<noteq> [] \<Longrightarrow> \<forall>c\<in>set ds. isdigit c \<Longrightarrow> skip_ws (ds @ r) = ds @ r"
  by (cases ds) (auto simp: skip_ws_def isdigit_not_space)

lemma scan_int_digits:
  assumes "ds \<noteq> []" "\<forall>c\<in>set ds. isdigit c" "\<not> isdigit c"
  shows "scan_int (ds @ c # r) = Some (word_of_int (strtol_clamp (digits_val ds)), c # r)"
proof -
  from assms obtain x xs where ds: "ds = x # xs" by (cases ds) auto
  with assms have x: "isdigit x" by simp
  have tw: "takeWhile isdigit (ds @ c # r) = ds"
    using assms by (simp add: takeWhile_append2)
  from x isdigit_not_sign [OF x] tw assms(1) show ?thesis
    unfolding scan_int_def skip_ws_digits [OF assms(1,2)]
    by (simp add: ds Let_def)
qed

lemma scan_int_fmt:
  assumes "0 \<le> sint i" "\<not> isdigit c"
  shows "scan_int (fmt_0d w i @ c # r) = Some (i, c # r)"
proof -
  from sint_bounds [of i] have "strtol_clamp (sint i) = sint i"
    by (simp add: strtol_clamp_def)
  then have "word_of_int (strtol_clamp (digits_val (fmt_0d w i))) = i"
    by (simp add: fmt_0d_props(3) [OF assms(1)])
  with scan_int_digits [OF fmt_0d_props(1,2) [OF assms(1)] assms(2), of w r]
  show ?thesis by simp
qed

lemma skip_ws_fmt: "0 \<le> sint i \<Longrightarrow> skip_ws (fmt_0d w i @ r) = fmt_0d w i @ r"
  using skip_ws_digits [of "fmt_0d w i" r] fmt_0d_props [of i w] by simp

lemma skip_ws_space: "skip_ws (CHR '' '' # r) = skip_ws r"
  by (simp add: skip_ws_def isspace_def)

lemma scan_str_name:
  assumes "length w = 3" "\<forall>c\<in>set w. \<not> isspace c"
  shows "scan_str 3 (w @ r) = Some (w, r)" "skip_ws (w @ r) = w @ r"
proof -
  from assms obtain a b c where w: "w = [a, b, c]"
    by (auto simp: numeral_3_eq_3 length_Suc_conv)
  with assms show "skip_ws (w @ r) = w @ r" by (simp add: skip_ws_def)
  with assms w show "scan_str 3 (w @ r) = Some (w, r)"
    by (simp add: scan_str_def Let_def)
qed

declare parse_month_loop.simps [simp del] parse_weekday_loop.simps [simp del]

lemma weekday_in_range:
  assumes "0 \<le> sint (w::cint)" "sint w \<le> 6"
  shows "w \<in> {0, 1, 2, 3, 4, 5, 6}"
proof -
  from assms have "sint w \<in> {0, 1, 2, 3, 4, 5, 6}" by (simp; arith)
  then show ?thesis by (auto dest!: word_from_sint)
qed

lemma month_word_in_range:
  assumes "1 \<le> sint (m::cint)" "sint m \<le> 12"
  shows "m \<in> {1, 2, 3, 4, 5, 6, 7, 8, 9, 10, 11, 12}"
proof -
  from month_in_range [OF assms] show ?thesis by (auto dest!: word_from_sint)
qed

lemma weekday_name_props:
  assumes "0 \<le> sint w" "sint w \<le> 6"
  shows "length (weekday_names ! nat (sint w)) = 3"
    "\<forall>c\<in>set (weekday_names ! nat (sint w)). \<not> isspace c"
    "parse_weekday (weekday_names ! nat (sint w)) = w"
proof -
  note r = weekday_in_range [OF assms]
  from r show "length (weekday_names ! nat (sint w)) = 3"
    by (auto simp: weekday_names_def)
  from r show "\<forall>c\<in>set (weekday_names ! nat (sint w)). \<not> isspace c"
    by (auto simp: weekday_names_def isspace_def)
  from r show "parse_weekday (weekday_names ! nat (sint w)) = w"
    by (auto simp: weekday_names_def parse_weekday_def parse_weekday_loop.simps)
qed

lemma month_name_props:
  assumes "1 \<le> sint m" "sint m \<le> 12"
  shows "length (month_names ! nat (sint (m - 1))) = 3"
    "\<forall>c\<in>set (month_names ! nat (sint (m - 1))). \<not> isspace c"
    "parse_month (month_names ! nat (sint (m - 1))) = m"
proof -
  note r = month_word_in_range [OF assms]
  from r show "length (month_names ! nat (sint (m - 1))) = 3"
    by (auto simp: month_names_def)
  from r show "\<forall>c\<in>set (month_names ! nat (sint (m - 1))). \<not> isspace c"
    by (auto simp: month_names_def isspace_def)
  from r show "parse_month (month_names ! nat (sint (m - 1))) = m"
    by (auto simp: month_names_def parse_month_def parse_month_loop.simps)
qed

lemma parse_weekday_unknown: "w \<notin> set weekday_names \<Longrightarrow> parse_weekday w = 0"
  by (simp add: weekday_names_def parse_weekday_def parse_weekday_loop.simps)

lemma parse_month_unknown: "m \<notin> set month_names \<Longrightarrow> parse_month m = 1"
  by (simp add: month_names_def parse_month_def parse_month_loop.simps)

lemma sint_of_nat_small: "i < 12 \<Longrightarrow> sint (of_nat i :: cint) = int i"
proof -
  assume "i < 12"
  then have "i \<in> {0, 1, 2, 3, 4, 5, 6, 7, 8, 9, 10, 11}" by (simp; arith)
  then show ?thesis by auto
qed

lemma parse_month_loop_range:
  "1 \<le> sint (parse_month_loop str i) \<and> sint (parse_month_loop str i) \<le> 12"
proof (induction str i rule: parse_month_loop.induct)
  case (1 str i)
  show ?case
  proof (cases "i < 12")
    case True
    then have "sint (of_nat i + 1 :: cint) = int i + 1"
      using sint_plus_one [of "of_nat i"] by (simp add: sint_of_nat_small)
    with True "1.IH" show ?thesis
      by (subst (1 2) parse_month_loop.simps) auto
  next
    case False
    then show ?thesis by (subst (1 2) parse_month_loop.simps) simp
  qed
qed

lemma parse_weekday_loop_range:
  "0 \<le> sint (parse_weekday_loop str i) \<and> sint (parse_weekday_loop str i) \<le> 6"
proof (induction str i rule: parse_weekday_loop.induct)
  case (1 str i)
  show ?case
  proof (cases "i < 7")
    case True
    then have "sint (of_nat i :: cint) = int i" by (simp add: sint_of_nat_small)
    with True "1.IH" show ?thesis
      by (subst (1 2) parse_weekday_loop.simps) auto
  next
    case False
    then show ?thesis by (subst (1 2) parse_weekday_loop.simps) simp
  qed
qed

lemma not_digit_sep: "\<not> isdigit CHR '' ''" "\<not> isdigit CHR '':''"
  by (simp_all add: isdigit_def)

lemma date_ok_sint:
  "date_ok d \<Longrightarrow> 0 \<le> sint (weekday d) \<and> sint (weekday d) \<le> 6 \<and> 1 \<le> sint (month d) \<and>
     sint (month d) \<le> 12 \<and> 1 \<le> sint (day d) \<and> sint (day d) \<le> 31 \<and> 0 \<le> sint (hour d) \<and>
     sint (hour d) \<le> 23 \<and> 0 \<le> sint (minute d) \<and> sint (minute d) \<le> 59"
  using date_ok_day [of d] by (simp add: date_ok_def word_sle_eq)

lemma sscanf_http_date_text:
  assumes "date_ok d" "0 \<le> sint (year d)" "0 \<le> sint (second d)"
  shows "sscanf http_date_format (http_date_text d) u =
           \<lparr>l_weekday = weekday_names ! nat (sint (weekday d)), l_day = day d,
            l_month = month_names ! nat (sint (month d - 1)), l_year = year d,
            l_hour = hour d, l_minute = minute d, l_second = second d\<rparr>"
proof -
  note s = date_ok_sint [OF assms(1)]
  from s have w: "0 \<le> sint (weekday d)" "sint (weekday d) \<le> 6"
    and m: "1 \<le> sint (month d)" "sint (month d) \<le> 12"
    and r: "0 \<le> sint (day d)" "0 \<le> sint (hour d)" "0 \<le> sint (minute d)"
    by simp_all
  note wn = weekday_name_props(1,2) [OF w]
  note mn = month_name_props(1,2) [OF m]
  show ?thesis
    unfolding http_date_text_def http_date_format_def
    by (cases u)
       (simp add: scan_str_name [OF wn] scan_str_name [OF mn] scan_lit_def skip_ws_space
          skip_ws_fmt scan_int_fmt not_digit_sep r assms(2,3))
qed

lemma generate_date_text:
  assumes "date_ok d" "0 \<le> sint (year d)" "0 \<le> sint (second d)"
  shows "generate_date u clk (Some (http_date_text d)) 0 = Some (d\<lparr>gmt_offset := 0\<rparr>)"
proof -
  note s = date_ok_sint [OF assms(1)]
  from s have w: "0 \<le> sint (weekday d)" "sint (weekday d) \<le> 6"
    and m: "1 \<le> sint (month d)" "sint (month d) \<le> 12"
    by simp_all
  have ok: "date_ok (d\<lparr>gmt_offset := 0\<rparr>)"
    using assms(1) by (simp add: date_ok_def cong: option.case_cong)
  have e: "\<lparr>year = year d, month = month d, day = day d, hour = hour d, minute = minute d,
            second = second d, weekday = weekday d, gmt_offset = 0\<rparr> = d\<lparr>gmt_offset := 0\<rparr>"
    by (rule arcdate.equality) simp_all
  have "generate_date u clk (Some (http_date_text d)) 0 = add_hours (d\<lparr>gmt_offset := 0\<rparr>) 0"
    by (simp add: generate_date_def sscanf_http_date_text [OF assms]
          weekday_name_props(3) [OF w] month_name_props(3) [OF m] e)
  with zero_delta [OF ok] show ?thesis by simp
qed

lemma to_date_string_text:
  assumes "date_ok d" "0 \<le> sint (year d)" "sint (year d) \<le> 9999" "0 \<le> sint (second d)"
    "sint (second d) \<le> 59" "gmt_offset d = 0"
  shows "to_date_string d = Some (http_date_text d @ ''+0'')"
proof -
  note s = date_ok_sint [OF assms(1)]
  from s have w: "0 \<le> sint (weekday d)" "sint (weekday d) \<le> 6"
    and m: "1 \<le> sint (month d)" "sint (month d) \<le> 12"
    by simp_all
  from s assms have len: "length (fmt_0d 2 (day d)) = 2" "length (fmt_0d 4 (year d)) = 4"
    "length (fmt_0d 2 (hour d)) = 2" "length (fmt_0d 2 (minute d)) = 2"
    "length (fmt_0d 2 (second d)) = 2"
    by (simp_all add: fmt_0d_length)
  have z: "fmt_plus_d 0 = ''+0''"
    by (simp add: fmt_plus_d_def dec_digits.simps digit_char_def word_sless_alt)
  have "length (http_date_text d @ ''+0'') = 31"
    by (simp add: http_date_text_def len weekday_name_props(1) [OF w] month_name_props(1) [OF m])
  then have "take 99 (http_date_text d @ ''+0'') = http_date_text d @ ''+0''" by simp
  moreover have "to_date_string d = Some (take 99 (http_date_text d @ ''+0''))"
    using w m by (simp add: to_date_string_def http_date_text_def assms(6) z word_sle_eq word_sless_alt)
  ultimately show ?thesis by simp
qed

lemma round_trip_text:
  assumes "date_ok d" "0 \<le>s year d" "year d \<le>s 9999" "0 \<le>s second d" "second d \<le>s 59"
  shows "round_trip u clk (http_date_text d) = Some (http_date_text d @ ''+0'')"
proof -
  let ?e = "d\<lparr>gmt_offset := 0\<rparr>"
  from assms(2-5) have r: "0 \<le> sint (year d)" "sint (year d) \<le> 9999" "0 \<le> sint (second d)"
    "sint (second d) \<le> 59"
    by (simp_all add: word_sle_eq)
  have ok: "date_ok ?e" using assms(1) by (simp add: date_ok_def cong: option.case_cong)
  have t: "http_date_text ?e = http_date_text d" by (simp add: http_date_text_def)
  from to_date_string_text [OF ok] r t
  have "to_date_string ?e = Some (http_date_text d @ ''+0'')" by simp
  with generate_date_text [OF assms(1) r(1,3), of u clk] show ?thesis
    by (simp add: round_trip_def)
qed

lemma wed_ok:
  "date_ok wed_21_oct_2015" "0 \<le>s year wed_21_oct_2015" "year wed_21_oct_2015 \<le>s 9999"
  "0 \<le>s second wed_21_oct_2015" "second wed_21_oct_2015 \<le>s 59"
  by code_simp+

lemma wed_text: "http_date_text wed_21_oct_2015 = ''Wed, 21 Oct 2015 07:28:00 GMT''"
  by code_simp

lemma generate_date_defined:
  "\<exists>d. generate_date uninit clk (Some s) off = Some d"
proof -
  let ?l = "sscanf http_date_format s uninit"
  let ?d = "\<lparr>year = l_year ?l, month = parse_month (l_month ?l), day = l_day ?l,
             hour = l_hour ?l, minute = l_minute ?l, second = l_second ?l,
             weekday = parse_weekday (l_weekday ?l), gmt_offset = off\<rparr>"
  have g: "generate_date uninit clk (Some s) off = add_hours ?d off"
    by (simp add: generate_date_def Let_def)
  have "roll_ok ?d"
    using parse_month_loop_range [of "l_month ?l" 0] parse_weekday_loop_range [of "l_weekday ?l" 0]
    by (simp add: roll_ok_sint parse_month_def parse_weekday_def)
  from add_hours_post [OF this, of off] g show ?thesis by auto
qed

lemma sscanf_xyz:
  "sscanf http_date_format ''Xyz, 21 Foo 2015 07:28:00 GMT'' stale_locals =
     \<lparr>l_weekday = ''Xyz'', l_day = 21, l_month = ''Foo'', l_year = 2015, l_hour = 7,
      l_minute = 28, l_second = 0\<rparr>"
  by code_simp

lemma sscanf_foob:
  "sscanf http_date_format ''Wed, 21 Foob 2015 07:28:00 GMT'' stale_locals =
     stale_locals\<lparr>l_weekday := ''Wed'', l_day := 21, l_month := ''Foo''\<rparr>"
  by code_simp

lemma names_unknown: "''Xyz'' \<notin> set weekday_names" "''Foo'' \<notin> set month_names"
  by (simp_all add: weekday_names_def month_names_def)

lemma add_hours_xyz:
  "add_hours \<lparr>year = 2015, month = 1, day = 21, hour = 7, minute = 28, second = 0,
     weekday = 0, gmt_offset = 0\<rparr> 0 =
   Some \<lparr>year = 2015, month = 1, day = 21, hour = 7, minute = 28, second = 0,
     weekday = 0, gmt_offset = 0\<rparr>"
  by code_simp

lemma jan_max_ok: "date_ok (jan_31 2147483647)"
  by code_simp

lemma add_years_at_int_max: "add_years (jan_31 2147483647) 1 = jan_31 (- 2147483648)"
  by code_simp

lemma feb_ok: "date_ok feb_15_2023"
  by code_simp

lemma add_months_at_int_max:
  "add_months feb_15_2023 2147483647 = Some (feb_15_2023\<lparr>year := - 178954948, month := 5\<rparr>)"
  by code_simp

section \<open>The claims\<close>

subsection \<open>C1: the carry at a unit boundary against floor division\<close>

text \<open>
  C1 (not met by the code). The claim is that the carry is the floor quotient: the
  truncating quotient decremented exactly when the truncating remainder is negative. The
  code decrements whenever the total is negative, so at a negative exact multiple of the
  base it carries one unit too many. Evaluated here: at 12:00, \<^verbatim>\<open>add_minutes\<close> with -60
  gives 10:00 where the floor quotient is -1; at 00:28 on the 21st, \<^verbatim>\<open>add_hours\<close> with -24
  gives the 19th; \<^verbatim>\<open>add_months\<close> with -12 on January 2024 gives January 2022.
\<close>

theorem carry_at_exact_negative_multiple:
  "add_minutes (wed_21_oct_2015\<lparr>hour := 12, minute := 0\<rparr>) (- 60) =
     Some (wed_21_oct_2015\<lparr>hour := 10, minute := 0\<rparr>) \<and>
   (sint (minute (wed_21_oct_2015\<lparr>hour := 12, minute := 0\<rparr>)) + (- 60)) div 60 = - 1 \<and>
   add_hours (wed_21_oct_2015\<lparr>hour := 0\<rparr>) (- 24) =
     Some (wed_21_oct_2015\<lparr>hour := 0, day := 19\<rparr>) \<and>
   (sint (hour (wed_21_oct_2015\<lparr>hour := 0\<rparr>)) + (- 24)) div 24 = - 1 \<and>
   add_months (jan_31 2024) (- 12) = Some (jan_31 2022) \<and>
   (sint (month (jan_31 2024)) - 1 + (- 12)) div 12 = - 1"
  by code_simp

subsection \<open>C2: formatting what was parsed with offset 0\<close>

text \<open>
  C2 (amended). The formatter always writes the offset after \<^verbatim>\<open>GMT\<close>, so the text that
  comes back is not the input. Amended claim: for every well-formed HTTP date \<open>s\<close> (the
  layout above for fields that satisfy the range invariants, a year in 0..9999 and a
  second in 0..59), formatting what parsing \<open>s\<close> with offset 0 returns gives \<open>s\<close> followed
  by \<^verbatim>\<open>+0\<close>.
\<close>

theorem round_trip_appends_offset:
  assumes "date_ok d" "0 \<le>s year d" "year d \<le>s 9999" "0 \<le>s second d" "second d \<le>s 59"
  shows "round_trip uninit clk (http_date_text d) = Some (http_date_text d @ ''+0'')"
  using assms by (rule round_trip_text)

theorem round_trip_appends_offset_witness:
  "date_ok wed_21_oct_2015 \<and>
   round_trip stale_locals epoch_tm ''Wed, 21 Oct 2015 07:28:00 GMT'' =
     Some ''Wed, 21 Oct 2015 07:28:00 GMT+0''"
  using round_trip_appends_offset [OF wed_ok, of stale_locals epoch_tm] wed_ok(1)
  by (simp add: wed_text)

text \<open>The claim as stated fails on the date of \<^verbatim>\<open>test.c\<close>: the text returned is not the
  input.\<close>

theorem round_trip_counterexample:
  "round_trip stale_locals epoch_tm ''Wed, 21 Oct 2015 07:28:00 GMT'' \<noteq>
     Some ''Wed, 21 Oct 2015 07:28:00 GMT''"
  using round_trip_text [OF wed_ok, of stale_locals epoch_tm] by (simp add: wed_text)

subsection \<open>C3: the weekday after a mutation\<close>

text \<open>
  C3 (not met by the code). The claim is that a weekday that agrees with the date agrees
  again after any mutation. \<^verbatim>\<open>add_days\<close> moves the weekday only when a month boundary is
  crossed. Evaluated here, the scenario of \<^verbatim>\<open>test.c\<close>: Wednesday 21 October 2015 plus two
  days is 23 October 2015 with the weekday still 3 (Wednesday); that day is a Friday (5).
\<close>

theorem weekday_unchanged_within_month:
  "sint (weekday wed_21_oct_2015) = gregorian_weekday 2015 10 21 \<and>
   add_days wed_21_oct_2015 2 = Some (wed_21_oct_2015\<lparr>day := 23\<rparr>) \<and>
   sint (weekday (wed_21_oct_2015\<lparr>day := 23\<rparr>)) = 3 \<and>
   gregorian_weekday 2015 10 23 = 5"
  by code_simp

subsection \<open>C4: two conversions against one\<close>

text \<open>
  C4 (not met by the code). The claim is that converting to offset X and then to Y gives
  what converting to Y alone gives. Evaluated here: a timestamp at 00:30 on the 21st with
  offset +12, converted to -12 and back to +12, is at 00:30 on the 20th, while converting
  it to +12 directly leaves it on the 21st. The difference of -24 hours is a negative
  exact multiple of 24, where \<^verbatim>\<open>add_hours\<close> borrows two days (see C1).
\<close>

theorem convert_twice_differs:
  "(case convert midnight_gmt12 (- 12) of None \<Rightarrow> None | Some d \<Rightarrow> convert d 12) =
     Some (midnight_gmt12\<lparr>day := 20\<rparr>) \<and>
   convert midnight_gmt12 12 = Some midnight_gmt12"
  by code_simp

subsection \<open>C5: every mutation preserves the range invariants\<close>

text \<open>
  C5. If the timestamp satisfies the range invariants (month in 1..12, day in
  1..days_in_month, hour in 0..23, minute in 0..59, weekday in 0..6), then for every
  \<^verbatim>\<open>int\<close> delta each of \<^verbatim>\<open>add_minutes\<close>, \<^verbatim>\<open>add_hours\<close>, \<^verbatim>\<open>add_days\<close>, \<^verbatim>\<open>add_months\<close>,
  \<^verbatim>\<open>add_years\<close> and \<^verbatim>\<open>convert\<close> returns a timestamp that satisfies them again. This holds
  also where the arithmetic wraps around: the year after 2147483647 is -2147483648, and
  the invariants put no bound on the year.
\<close>

theorem range_invariants_preserved:
  assumes "date_ok d"
  shows "(\<exists>d'. add_minutes d n = Some d' \<and> date_ok d') \<and>
         (\<exists>d'. add_hours d n = Some d' \<and> date_ok d') \<and>
         (\<exists>d'. add_days d n = Some d' \<and> date_ok d') \<and>
         (\<exists>d'. add_months d n = Some d' \<and> date_ok d') \<and>
         date_ok (add_years d n) \<and>
         (\<exists>d'. convert d n = Some d' \<and> date_ok d')"
proof -
  from assms have r: "roll_ok d" and h: "0 \<le> sint (hour d)" "sint (hour d) \<le> 23"
    and m: "0 \<le> sint (minute d)" "sint (minute d) \<le> 59"
    by (simp_all add: date_ok_iff)
  have mm: "0 \<le> sint (minute d + n) mod 60" "sint (minute d + n) mod 60 \<le> 59"
    using pos_mod_bound [of 60 "sint (minute d + n)"] by simp_all
  have 1: "\<exists>d'. add_minutes d n = Some d' \<and> date_ok d'"
    using add_minutes_post [OF r, of n] mm by (auto simp: date_ok_iff)
  have 2: "\<exists>d'. add_hours d n = Some d' \<and> date_ok d'"
    using add_hours_post [OF r, of n] m by (auto simp: date_ok_iff)
  have 3: "\<exists>d'. add_days d n = Some d' \<and> date_ok d'"
    using add_days_post [OF r, of n] h m by (auto simp: date_ok_iff same_clock_def)
  have 4: "\<exists>d'. add_months d n = Some d' \<and> date_ok d'"
    using add_months_post [OF assms, of n] by blast
  have 5: "date_ok (add_years d n)" using assms by (rule add_years_ok)
  have 6: "\<exists>d'. convert d n = Some d' \<and> date_ok d'"
  proof -
    from add_hours_post [OF r, of "n - gmt_offset d"] obtain d'
      where d': "add_hours d (n - gmt_offset d) = Some d'" "roll_ok d'" "day_fits d'"
        "1 \<le> sint (day d')" "0 \<le> sint (hour d')" "sint (hour d') \<le> 23" "minute d' = minute d"
      by blast
    have "date_ok (d'\<lparr>gmt_offset := n\<rparr>)"
      using d' m by (simp add: date_ok_iff roll_ok_def day_fits_def cong: option.case_cong)
    with d'(1) show ?thesis by (simp add: convert_def)
  qed
  from 1 2 3 4 5 6 show ?thesis by blast
qed

theorem range_invariants_preserved_witness:
  "date_ok wed_21_oct_2015 \<and>
   (\<exists>d'. add_minutes wed_21_oct_2015 (- 90) = Some d' \<and> date_ok d') \<and>
   (\<exists>d'. add_hours wed_21_oct_2015 (- 90) = Some d' \<and> date_ok d') \<and>
   (\<exists>d'. add_days wed_21_oct_2015 (- 90) = Some d' \<and> date_ok d') \<and>
   (\<exists>d'. add_months wed_21_oct_2015 (- 90) = Some d' \<and> date_ok d') \<and>
   date_ok (add_years wed_21_oct_2015 (- 90)) \<and>
   (\<exists>d'. convert wed_21_oct_2015 (- 90) = Some d' \<and> date_ok d') \<and>
   date_ok (jan_31 2147483647) \<and>
   add_years (jan_31 2147483647) 1 = jan_31 (- 2147483648) \<and>
   date_ok (jan_31 (- 2147483648))"
proof -
  note a = range_invariants_preserved [OF wed_date_ok, of "- 90"]
  from range_invariants_preserved [OF jan_max_ok, of 1]
  have "date_ok (add_years (jan_31 2147483647) 1)" by blast
  then have b: "date_ok (jan_31 (- 2147483648))" by (simp only: add_years_at_int_max)
  from wed_date_ok a jan_max_ok add_years_at_int_max b show ?thesis by blast
qed

subsection \<open>C6: a zero delta changes nothing\<close>

text \<open>
  C6. On a timestamp that satisfies the range invariants, \<^verbatim>\<open>add_days\<close>, \<^verbatim>\<open>add_hours\<close>,
  \<^verbatim>\<open>add_minutes\<close>, \<^verbatim>\<open>add_months\<close> and \<^verbatim>\<open>add_years\<close> with delta 0 return the timestamp
  with every field unchanged.
\<close>

theorem zero_delta_identity:
  assumes "date_ok d"
  shows "add_days d 0 = Some d \<and> add_hours d 0 = Some d \<and> add_minutes d 0 = Some d \<and>
         add_months d 0 = Some d \<and> add_years d 0 = d"
  using assms by (rule zero_delta)

theorem zero_delta_identity_witness:
  "date_ok wed_21_oct_2015 \<and>
   add_days wed_21_oct_2015 0 = Some wed_21_oct_2015 \<and>
   add_hours wed_21_oct_2015 0 = Some wed_21_oct_2015 \<and>
   add_minutes wed_21_oct_2015 0 = Some wed_21_oct_2015 \<and>
   add_months wed_21_oct_2015 0 = Some wed_21_oct_2015 \<and>
   add_years wed_21_oct_2015 0 = wed_21_oct_2015"
  using wed_date_ok zero_delta_identity [OF wed_date_ok] by simp

subsection \<open>C7: add_months clamps the day to the new month\<close>

text \<open>
  C7. On a timestamp that satisfies the range invariants, for every \<^verbatim>\<open>int\<close> month delta
  \<open>n\<close>, \<^verbatim>\<open>add_months\<close> sets the month to the floor remainder of the \<^verbatim>\<open>int\<close>
  \<^verbatim>\<open>month + n - 1\<close> by 12, plus 1, which is in 1..12; where \<^verbatim>\<open>month + n - 1\<close> does not
  overflow this is \<open>(month - 1 + n) mod 12 + 1\<close>. It leaves the day at the minimum of the
  old day and the length of the new month in the new year. In particular one month added
  to January 31 gives February 28 of the same year when that year is not a leap year and
  February 29 when it is.
\<close>

theorem add_months_clamps_day:
  assumes "date_ok d"
  shows "\<exists>d' dim. add_months d n = Some d' \<and>
           1 \<le>s month d' \<and> month d' \<le>s 12 \<and>
           sint (month d') = sint (month d + n - 1) mod 12 + 1 \<and>
           (- 2147483648 \<le> sint (month d) + sint n - 1 \<and>
            sint (month d) + sint n - 1 \<le> 2147483647 \<longrightarrow>
              sint (month d') = (sint (month d) - 1 + sint n) mod 12 + 1) \<and>
           days_in_month (month d') (year d') = Some dim \<and>
           sint (day d') = min (sint (day d)) (sint dim) \<and>
           (month d = 1 \<and> day d = 31 \<and> n = 1 \<longrightarrow>
              month d' = 2 \<and> year d' = year d \<and>
              day d' = (if is_leap_year (year d) then 29 else 28))"
proof -
  from add_months_post [OF assms, of n] obtain d' dim where
    p: "add_months d n = Some d'" "date_ok d'"
      "sint (month d') = sint (month d + n - 1) mod 12 + 1"
      "days_in_month (month d') (year d') = Some dim"
      "sint (day d') = min (sint (day d)) (sint dim)"
      "year d' = year d + (if month d + n - 1 <s 0 then c_div (month d + n - 1) 12 - 1
                           else c_div (month d + n - 1) 12)"
    by blast
  from p(2) have r: "1 \<le>s month d'" "month d' \<le>s 12" by (simp_all add: date_ok_def)
  have u: "sint (month d') = (sint (month d) - 1 + sint n) mod 12 + 1"
    if "- 2147483648 \<le> sint (month d) + sint n - 1" "sint (month d) + sint n - 1 \<le> 2147483647"
  proof -
    have "sint (month d) - 1 + sint n = sint (month d + n - 1)"
      using sint_sum_pred [OF that] by simp
    with p(3) show ?thesis by (simp only:)
  qed
  have j: "month d' = 2 \<and> year d' = year d \<and> day d' = (if is_leap_year (year d) then 29 else 28)"
    if "month d = 1" "day d = 31" "n = 1"
  proof -
    from that p(3) have "sint (month d') = 2" by simp
    then have m2: "month d' = 2" using word_from_sint [of "month d'" 2] by simp
    from that p(6) have y: "year d' = year d" by (simp add: word_sless_alt c_div_small)
    from that p(4,5) m2 y have "sint (day d') = sint (if is_leap_year (year d) then 29 else 28 :: cint)"
      by (auto simp: days_in_month_feb)
    then have "day d' = (if is_leap_year (year d) then 29 else 28)" by (rule signed_word_eqI)
    with m2 y show ?thesis by simp
  qed
  from p r u j show ?thesis by (intro exI [of _ d'] exI [of _ dim]) simp
qed

theorem add_months_clamps_day_witness:
  "date_ok (jan_31 2023) \<and> date_ok (jan_31 2024) \<and> date_ok feb_15_2023 \<and>
   (\<exists>d'. add_months (jan_31 2023) 1 = Some d' \<and> year d' = 2023 \<and> month d' = 2 \<and> day d' = 28) \<and>
   (\<exists>d'. add_months (jan_31 2024) 1 = Some d' \<and> year d' = 2024 \<and> month d' = 2 \<and> day d' = 29) \<and>
   (\<exists>d'. add_months feb_15_2023 2147483647 = Some d' \<and> month d' = 5 \<and> day d' = 15)"
proof -
  have l: "\<not> is_leap_year 2023" "is_leap_year 2024"
    by code_simp+
  from add_months_clamps_day [OF jan_31_ok(1), of 1] l(1)
  have 1: "\<exists>d'. add_months (jan_31 2023) 1 = Some d' \<and> year d' = 2023 \<and> month d' = 2 \<and> day d' = 28"
    by (auto simp: jan_31_def)
  from add_months_clamps_day [OF jan_31_ok(2), of 1] l(2)
  have 2: "\<exists>d'. add_months (jan_31 2024) 1 = Some d' \<and> year d' = 2024 \<and> month d' = 2 \<and> day d' = 29"
    by (auto simp: jan_31_def)
  from add_months_clamps_day [OF feb_ok, of 2147483647] obtain d' dim where
    p: "add_months feb_15_2023 2147483647 = Some d'"
      "sint (month d') = sint (month feb_15_2023 + 2147483647 - 1) mod 12 + 1"
      "days_in_month (month d') (year d') = Some dim"
      "sint (day d') = min (sint (day feb_15_2023)) (sint dim)"
    by blast
  from p(1) have "d' = feb_15_2023\<lparr>year := - 178954948, month := 5\<rparr>"
    by (simp add: add_months_at_int_max)
  then have "month d' = 5" "day d' = 15" by (simp_all add: feb_15_2023_def)
  with p(1) have 3: "\<exists>d'. add_months feb_15_2023 2147483647 = Some d' \<and> month d' = 5 \<and> day d' = 15"
    by blast
  from jan_31_ok feb_ok 1 2 3 show ?thesis by blast
qed

subsection \<open>C8: unknown weekday and month names\<close>

text \<open>
  C8. For every input string and whatever the locals held before, \<^verbatim>\<open>generate_date\<close>
  returns a timestamp: it is \<^verbatim>\<open>add_hours\<close> of the fields that \<^verbatim>\<open>sscanf\<close> left in the
  locals, with the weekday 0 (Sunday) when the weekday name read is none of the seven, and
  the month 1 (January) when the month name read is none of the twelve. The two defaults
  are the values before the shift by the offset, which \<^verbatim>\<open>add_hours\<close> applies afterwards.
\<close>

theorem unknown_names_default:
  "(let l = sscanf http_date_format s uninit in
      (\<exists>d. generate_date uninit clk (Some s) off = Some d) \<and>
      generate_date uninit clk (Some s) off =
        add_hours
          \<lparr>year = l_year l, month = (if l_month l \<in> set month_names then parse_month (l_month l) else 1),
           day = l_day l, hour = l_hour l, minute = l_minute l, second = l_second l,
           weekday = (if l_weekday l \<in> set weekday_names then parse_weekday (l_weekday l) else 0),
           gmt_offset = off\<rparr> off \<and>
      (l_weekday l \<notin> set weekday_names \<longrightarrow> parse_weekday (l_weekday l) = 0) \<and>
      (l_month l \<notin> set month_names \<longrightarrow> parse_month (l_month l) = 1))"
proof -
  let ?l = "sscanf http_date_format s uninit"
  have 2: "(if l_month ?l \<in> set month_names then parse_month (l_month ?l) else 1)
             = parse_month (l_month ?l)"
    by (simp add: parse_month_unknown)
  have 3: "(if l_weekday ?l \<in> set weekday_names then parse_weekday (l_weekday ?l) else 0)
             = parse_weekday (l_weekday ?l)"
    by (simp add: parse_weekday_unknown)
  have g: "generate_date uninit clk (Some s) off =
             add_hours \<lparr>year = l_year ?l, month = parse_month (l_month ?l), day = l_day ?l,
               hour = l_hour ?l, minute = l_minute ?l, second = l_second ?l,
               weekday = parse_weekday (l_weekday ?l), gmt_offset = off\<rparr> off"
    by (simp add: generate_date_def Let_def)
  from generate_date_defined [of uninit clk s off] g show ?thesis
    unfolding Let_def 2 3 by (simp add: parse_month_unknown parse_weekday_unknown)
qed

theorem unknown_names_default_witness:
  "''Xyz'' \<notin> set weekday_names \<and> ''Foo'' \<notin> set month_names \<and>
   generate_date stale_locals epoch_tm (Some ''Xyz, 21 Foo 2015 07:28:00 GMT'') 0 =
     Some \<lparr>year = 2015, month = 1, day = 21, hour = 7, minute = 28, second = 0,
           weekday = 0, gmt_offset = 0\<rparr> \<and>
   l_month (sscanf http_date_format ''Wed, 21 Foob 2015 07:28:00 GMT'' stale_locals) = ''Foo'' \<and>
   parse_month ''Foo'' = 1 \<and>
   (\<exists>d. generate_date stale_locals epoch_tm (Some ''Wed, 21 Foob 2015 07:28:00 GMT'') 0 = Some d)"
proof -
  note a = unknown_names_default [of "''Xyz, 21 Foo 2015 07:28:00 GMT''" stale_locals epoch_tm 0]
  note b = unknown_names_default [of "''Wed, 21 Foob 2015 07:28:00 GMT''" stale_locals epoch_tm 0]
  from a names_unknown add_hours_xyz
  have 1: "generate_date stale_locals epoch_tm (Some ''Xyz, 21 Foo 2015 07:28:00 GMT'') 0 =
     Some \<lparr>year = 2015, month = 1, day = 21, hour = 7, minute = 28, second = 0,
           weekday = 0, gmt_offset = 0\<rparr>"
    by (simp add: sscanf_xyz Let_def)
  from b have 2: "\<exists>d. generate_date stale_locals epoch_tm
                    (Some ''Wed, 21 Foob 2015 07:28:00 GMT'') 0 = Some d"
    unfolding Let_def by (rule conjunct1)
  have 3: "l_month (sscanf http_date_format ''Wed, 21 Foob 2015 07:28:00 GMT'' stale_locals) = ''Foo''"
    by (simp add: sscanf_foob)
  from b names_unknown(2) have 4: "parse_month ''Foo'' = 1"
    by (simp add: Let_def 3)
  from names_unknown 1 2 3 4 show ?thesis by (intro conjI)
qed

subsection \<open>C9: add_days terminates within a bound given by the delta\<close>

text \<open>
  C9. For a timestamp that satisfies the range invariants and any \<^verbatim>\<open>int\<close> day delta \<open>n\<close>,
  both loops of \<^verbatim>\<open>add_days\<close> finish and \<^verbatim>\<open>add_days\<close> returns a timestamp. The first loop
  runs at most \<open>(|n| + 59) div 28\<close> times, and so does the second, also when
  \<^verbatim>\<open>date->day += days\<close> wraps around. The two loop functions are total by their
  termination proofs; the counters follow the same recursion and add one per iteration.
\<close>

theorem add_days_terminates:
  assumes "date_ok d"
  shows "\<exists>d1 d2. add_days_loop1 (d\<lparr>day := day d + n\<rparr>) = Some d1 \<and>
           add_days_loop2 d1 = Some d2 \<and> add_days d n = Some d2 \<and>
           add_days_loop1_iters (d\<lparr>day := day d + n\<rparr>) \<le> (nat \<bar>sint n\<bar> + 59) div 28 \<and>
           add_days_loop2_iters d1 \<le> (nat \<bar>sint n\<bar> + 59) div 28"
proof -
  let ?e = "d\<lparr>day := day d + n\<rparr>"
  from assms have r: "roll_ok ?e" by (simp add: date_ok_iff roll_ok_def)
  from loop1_post [OF r] obtain d1 where
    d1: "add_days_loop1 ?e = Some d1" "roll_ok d1" "day_fits d1" by blast
  from loop2_post [OF d1(2) d1(3)] obtain d2 where d2: "add_days_loop2 d1 = Some d2" by blast
  note dd = date_ok_day [OF assms]
  from abs_sint_add [of "day d" n] dd
  have a: "\<bar>sint (day d + n)\<bar> \<le> 31 + \<bar>sint n\<bar>" by linarith
  have "28 * int (add_days_loop1_iters ?e) \<le> max 0 (sint (day d + n) - 1)"
    using loop1_iters_bound [of ?e] by simp
  with a have b1: "add_days_loop1_iters ?e \<le> (nat \<bar>sint n\<bar> + 59) div 28" by linarith
  from loop1_day_lower [OF d1(1)] have "min 1 (sint (day d + n)) \<le> sint (day d1)" by simp
  with loop2_iters_bound [of d1] a
  have b2: "add_days_loop2_iters d1 \<le> (nat \<bar>sint n\<bar> + 59) div 28" by linarith
  from d1 d2 b1 b2 show ?thesis by (auto simp: add_days_def)
qed

theorem add_days_terminates_witness:
  "date_ok wed_21_oct_2015 \<and>
   (\<exists>d1 d2. add_days_loop1 (wed_21_oct_2015\<lparr>day := day wed_21_oct_2015 + 100\<rparr>) = Some d1 \<and>
      add_days_loop2 d1 = Some d2 \<and> add_days wed_21_oct_2015 100 = Some d2 \<and>
      add_days_loop1_iters (wed_21_oct_2015\<lparr>day := day wed_21_oct_2015 + 100\<rparr>) \<le> 5 \<and>
      add_days_loop2_iters d1 \<le> 5) \<and>
   (\<exists>d1 d2. add_days_loop1 (wed_21_oct_2015\<lparr>day := day wed_21_oct_2015 + 2147483647\<rparr>) = Some d1 \<and>
      add_days_loop2 d1 = Some d2 \<and> add_days wed_21_oct_2015 2147483647 = Some d2 \<and>
      add_days_loop1_iters (wed_21_oct_2015\<lparr>day := day wed_21_oct_2015 + 2147483647\<rparr>)
        \<le> 76695846 \<and>
      add_days_loop2_iters d1 \<le> 76695846)"
proof -
  have n: "(nat \<bar>sint (100 :: cint)\<bar> + 59) div 28 = 5"
    "(nat \<bar>sint (2147483647 :: cint)\<bar> + 59) div 28 = 76695846"
    by simp_all
  from add_days_terminates [OF wed_date_ok, of 100] add_days_terminates [OF wed_date_ok, of 2147483647]
    wed_date_ok
  show ?thesis unfolding n by blast
qed

subsection \<open>C10: releasing a null pointer\<close>

text \<open>
  C10. \<^verbatim>\<open>free_date\<close> on \<^verbatim>\<open>NULL\<close> returns with the heap as it was: the test
  \<^verbatim>\<open>if (date)\<close> keeps it from calling \<^verbatim>\<open>free\<close>.
\<close>

theorem free_date_null_noop: "free_date None h = Some h"
  by (simp add: free_date_def)

end
